theory Spec2Isabelle
  imports Main
begin

section \<open>Python values used by the notebook\<close>

text \<open>
  A Python \<open>str\<close> holding text (a message, a delimiter) is the list of its code points:
  \<open>ord\<close> reads a character as a natural number and \<open>len\<close> counts code points.
  A Python \<open>str\<close> of binary digits (\<open>binary_message\<close>, \<open>raw_binary\<close>) is a
  \<open>string\<close> over the characters \<open>0\<close> and \<open>1\<close>.
\<close>

type_synonym pystr = "nat list"

definition text_of :: "string \<Rightarrow> pystr" where
  "text_of s = map of_char s"

text \<open>
  The notebook reports a refused request by returning a fixed sentence, and everything
  else that goes wrong is a Python exception that nothing catches. The sentences about a
  missing message or delimiter are the specification's \<open>EmptyInputError\<close>, the
  sentence about the image's size is its \<open>CapacityError\<close>, and the sentence that no
  message was found is its \<open>NotFoundError\<close>.
\<close>

datatype report =
    Cannot_encrypt_without_message
  | Cannot_encrypt_without_delimiter
  | Image_too_small_or_message_too_large
  | Cannot_decrypt_without_a_supplied_delimiter
  | No_message_found

datatype exn = ValueError | IndexError | KeyError | ZeroDivisionError | FileNotFoundError

datatype error = Reported report | Raised exn

text \<open>
  \<open>range(start, stop, step)\<close> for a positive step. Python raises \<open>ValueError\<close> for a
  zero step; the one caller whose step can be zero tests for it before it asks for the range.
\<close>

function py_range :: "nat \<Rightarrow> nat \<Rightarrow> nat \<Rightarrow> nat list" where
  "py_range start stop step =
     (if step = 0 \<or> stop \<le> start then [] else start # py_range (start + step) stop step)"
  by pat_completeness auto
termination
  by (relation "measure (\<lambda>(start, stop, step). stop - start)") auto

declare py_range.simps [simp del]

text \<open>The slice \<open>s[a:b]\<close> for \<open>0 \<le> a\<close>, which Python clamps to the end of \<open>s\<close>.\<close>

definition slice :: "'a list \<Rightarrow> nat \<Rightarrow> nat \<Rightarrow> 'a list" where
  "slice s a b = take (b - a) (drop a s)"

section \<open>Message conversion\<close>

definition digit_char :: "nat \<Rightarrow> char" where
  "digit_char n = (if n = 0 then CHR ''0'' else CHR ''1'')"

text \<open>The binary digits of \<open>n\<close>, most significant first, without leading zeros.\<close>

fun bin :: "nat \<Rightarrow> string" where
  "bin n = (if n < 2 then [digit_char n] else bin (n div 2) @ [digit_char (n mod 2)])"

declare bin.simps [simp del]

text \<open>\<open>format(n, '08b')\<close>: the binary digits, padded with zeros on the left to eight.\<close>

definition format_08b :: "nat \<Rightarrow> string" where
  "format_08b n = replicate (8 - length (bin n)) CHR ''0'' @ bin n"

text \<open>
  \<^verbatim>\<open>
  def message_to_binary(message, delimiter):
      message_copy = delimiter + message + delimiter
      binary_message = ""
      for char in message_copy:
          binary_message += format(ord(char), '08b')
      return binary_message
  \<close>
\<close>

definition message_to_binary :: "pystr \<Rightarrow> pystr \<Rightarrow> string" where
  "message_to_binary message delimiter =
     (let message_copy = delimiter @ message @ delimiter
      in fold (\<lambda>char binary_message. binary_message @ format_08b char) message_copy [])"

section \<open>Reading a message from binary\<close>

definition is_bit :: "char \<Rightarrow> bool" where
  "is_bit c = (c = CHR ''0'' \<or> c = CHR ''1'')"

text \<open>
  \<open>int("0b" + s, 2)\<close> on a string of binary digits. The empty string and a string with
  another character raise \<open>ValueError\<close>. (Python's \<open>int\<close> also accepts blanks around the
  digits and single underscores between them; the strings this program reads are built
  from \<open>format(_, '08b')\<close> and \<open>str(channel % 2)\<close> and hold binary digits only.)
\<close>

definition int_0b :: "string \<Rightarrow> error + nat" where
  "int_0b s =
     (if s \<noteq> [] \<and> list_all is_bit s
      then Inr (fold (\<lambda>c n. 2 * n + (if c = CHR ''1'' then 1 else 0)) s 0)
      else Inl (Raised ValueError))"

text \<open>\<open>chr(n)\<close>: the character with code point \<open>n\<close>, which must be below \<open>0x110000\<close>.\<close>

definition chr :: "nat \<Rightarrow> error + nat" where
  "chr n = (if n < 1114112 then Inr n else Inl (Raised ValueError))"

text \<open>
  \<^verbatim>\<open>
  def binary_to_message(binary):
      decoded_message = ""
      for binary_idx in range(0, len(binary), 8):
          decoded_message += chr(int("0b" + binary[binary_idx:binary_idx + 8], 2))
      return decoded_message
  \<close>
\<close>

fun decode_loop :: "string \<Rightarrow> nat list \<Rightarrow> pystr \<Rightarrow> error + pystr" where
  "decode_loop binary [] decoded_message = Inr decoded_message"
| "decode_loop binary (binary_idx # rest) decoded_message =
     (case int_0b (slice binary binary_idx (binary_idx + 8)) of
        Inl e \<Rightarrow> Inl e
      | Inr n \<Rightarrow>
          (case chr n of
             Inl e \<Rightarrow> Inl e
           | Inr ch \<Rightarrow> decode_loop binary rest (decoded_message @ [ch])))"

definition binary_to_message :: "string \<Rightarrow> error + pystr" where
  "binary_to_message binary = decode_loop binary (py_range 0 (length binary) 8) []"

section \<open>Images and files\<close>

text \<open>
  An image in mode \<open>RGB\<close>, as the notebook's photograph is: \<open>img.size\<close> is
  \<open>(width, height)\<close> and \<open>pixel_map[col, row]\<close> is a tuple of three integers.
  Reading outside the image raises \<open>IndexError\<close>. The files of the notebook's folder
  are a map from file names to the images they decode to; \<open>img.save\<close> writes a lossless
  PNG, so the saved file decodes to the very pixels it was given.
\<close>

type_synonym pixel = "int \<times> int \<times> int"

record image =
  width :: nat
  height :: nat
  pixels :: "nat \<times> nat \<Rightarrow> pixel"

type_synonym files = "string \<rightharpoonup> image"

definition Image_open :: "files \<Rightarrow> string \<Rightarrow> error + image" where
  "Image_open fs image_filename =
     (case fs image_filename of
        None \<Rightarrow> Inl (Raised FileNotFoundError)
      | Some img \<Rightarrow> Inr img)"

definition getpixel :: "image \<Rightarrow> nat \<Rightarrow> nat \<Rightarrow> error + pixel" where
  "getpixel img col row =
     (if col < width img \<and> row < height img then Inr (pixels img (col, row))
      else Inl (Raised IndexError))"

definition putpixel :: "image \<Rightarrow> nat \<Rightarrow> nat \<Rightarrow> pixel \<Rightarrow> image" where
  "putpixel img col row p = img\<lparr>pixels := (pixels img)((col, row) := p)\<rparr>"

text \<open>The channels of a pixel in order, and \<open>tuple(new_value)\<close> for a list of three.\<close>

fun list_of_pixel :: "pixel \<Rightarrow> int list" where
  "list_of_pixel (r, g, b) = [r, g, b]"

definition tuple_of :: "int list \<Rightarrow> pixel" where
  "tuple_of new_value = (new_value ! 0, new_value ! 1, new_value ! 2)"

section \<open>Hiding the message\<close>

text \<open>
  \<open>math.ceil(a / b)\<close> for a positive \<open>b\<close>. The notebook divides in floating point;
  the quotient of two sizes below \<open>2 ^ 53\<close> rounds to a float whose ceiling is the exact
  one, and the model computes the exact one.
\<close>

definition ceil_div :: "nat \<Rightarrow> nat \<Rightarrow> nat" where
  "ceil_div a b = (a + b - 1) div b"

text \<open>
  \<open>random.randrange(start, stop)\<close>: some integer of \<open>[start, stop)\<close>, and
  \<open>ValueError\<close> when that range is empty. The generator's state is the parameter
  \<open>seed\<close>; every member of the range is the draw of some seed.
\<close>

definition randrange :: "nat \<Rightarrow> int \<Rightarrow> int \<Rightarrow> error + int" where
  "randrange seed start stop =
     (if stop \<le> start then Inl (Raised ValueError)
      else Inr (start + int seed mod (stop - start)))"

text \<open>
  \<^verbatim>\<open>evaluate_dict = {(0, 0): 0, (1, 1): 0, (0, 1): 1, (1, 0): -1}\<close>, keyed by the
  channel's least significant bit and the message bit.
\<close>

definition evaluate_dict :: "int \<times> int \<rightharpoonup> int" where
  "evaluate_dict = [(0, 0) \<mapsto> 0, (1, 1) \<mapsto> 0, (0, 1) \<mapsto> 1, (1, 0) \<mapsto> - 1]"

text \<open>\<open>int(c)\<close> for a string of one character: a decimal digit, or \<open>ValueError\<close>.\<close>

definition int_of_char :: "char \<Rightarrow> error + int" where
  "int_of_char c =
     (let n = (of_char c :: nat)
      in if 48 \<le> n \<and> n \<le> 57 then Inr (int n - 48) else Inl (Raised ValueError))"

text \<open>
  The encoding loops of \<open>hide_in_image\<close>, innermost first.
  \<^verbatim>\<open>
  message_idx = 0
  for pixel_col in range(random_column, random_column + columns_used):
      for pixel_row in range(0, img.size[1]):
          if message_idx == len(binary_message):
              break
          pixel = pixel_map[pixel_col, pixel_row]
          new_value = [pixel[0], pixel[1], pixel[2]]
          for pixel_idx in range(0, 3):
              evaluate_tuple = (pixel[pixel_idx] % 2, int(binary_message[message_idx]))
              new_value[pixel_idx] += evaluate_dict[evaluate_tuple]
              message_idx += 1
              if message_idx == len(binary_message):
                  break
          pixel_map[pixel_col, pixel_row] = tuple(new_value)
  \<close>
  Each loop takes the values its variable still has to run through and the state it
  changes, and returns that state.
\<close>

fun channel_loop ::
  "string \<Rightarrow> pixel \<Rightarrow> nat list \<Rightarrow> int list \<Rightarrow> nat \<Rightarrow> error + int list \<times> nat" where
  "channel_loop binary_message pixel [] new_value message_idx = Inr (new_value, message_idx)"
| "channel_loop binary_message pixel (pixel_idx # rest) new_value message_idx =
     (if length binary_message \<le> message_idx then Inl (Raised IndexError)
      else
        case int_of_char (binary_message ! message_idx) of
          Inl e \<Rightarrow> Inl e
        | Inr b \<Rightarrow>
            (case evaluate_dict (list_of_pixel pixel ! pixel_idx mod 2, b) of
               None \<Rightarrow> Inl (Raised KeyError)
             | Some delta \<Rightarrow>
                 (let new_value' = new_value[pixel_idx := new_value ! pixel_idx + delta];
                      message_idx' = message_idx + 1
                  in if message_idx' = length binary_message then Inr (new_value', message_idx')
                     else channel_loop binary_message pixel rest new_value' message_idx')))"

fun row_loop ::
  "string \<Rightarrow> nat \<Rightarrow> nat list \<Rightarrow> image \<Rightarrow> nat \<Rightarrow> error + image \<times> nat" where
  "row_loop binary_message pixel_col [] img message_idx = Inr (img, message_idx)"
| "row_loop binary_message pixel_col (pixel_row # rest) img message_idx =
     (if message_idx = length binary_message then Inr (img, message_idx)
      else
        case getpixel img pixel_col pixel_row of
          Inl e \<Rightarrow> Inl e
        | Inr pixel \<Rightarrow>
            (case channel_loop binary_message pixel [0, 1, 2] (list_of_pixel pixel) message_idx of
               Inl e \<Rightarrow> Inl e
             | Inr (new_value, message_idx') \<Rightarrow>
                 row_loop binary_message pixel_col rest
                   (putpixel img pixel_col pixel_row (tuple_of new_value)) message_idx'))"

fun column_loop :: "string \<Rightarrow> nat list \<Rightarrow> image \<Rightarrow> nat \<Rightarrow> error + image \<times> nat" where
  "column_loop binary_message [] img message_idx = Inr (img, message_idx)"
| "column_loop binary_message (pixel_col # rest) img message_idx =
     (case row_loop binary_message pixel_col [0..<height img] img message_idx of
        Inl e \<Rightarrow> Inl e
      | Inr (img', message_idx') \<Rightarrow> column_loop binary_message rest img' message_idx')"

definition embed :: "image \<Rightarrow> string \<Rightarrow> nat \<Rightarrow> nat \<Rightarrow> error + image" where
  "embed img binary_message random_column columns_used =
     (case column_loop binary_message [random_column..<random_column + columns_used] img 0 of
        Inl e \<Rightarrow> Inl e
      | Inr (img', message_idx) \<Rightarrow> Inr img')"

text \<open>
  \<open>hide_in_image\<close> returns one of three sentences when it refuses, and otherwise saves
  the changed image as \<open>new_filename + ".png"\<close>; the result is the folder after the call.
\<close>

definition hide_in_image ::
  "nat \<Rightarrow> files \<Rightarrow> pystr \<Rightarrow> pystr \<Rightarrow> string \<Rightarrow> string \<Rightarrow> error + files" where
  "hide_in_image seed fs message delimiter image_filename new_filename =
     (if length message = 0 then Inl (Reported Cannot_encrypt_without_message)
      else if length delimiter = 0 then Inl (Reported Cannot_encrypt_without_delimiter)
      else
        let binary_message = message_to_binary message delimiter
        in case Image_open fs image_filename of
             Inl e \<Rightarrow> Inl e
           | Inr img \<Rightarrow>
               (let max_size = width img * height img * 3
                in if max_size < length binary_message
                   then Inl (Reported Image_too_small_or_message_too_large)
                   else
                     let pixels_used = ceil_div (length binary_message) 3
                     in if height img = 0 then Inl (Raised ZeroDivisionError)
                        else
                          let columns_used = ceil_div pixels_used (height img);
                              latest_start = int (width img) - int columns_used
                          in case randrange seed 0 latest_start of
                               Inl e \<Rightarrow> Inl e
                             | Inr random_column \<Rightarrow>
                                 (case embed img binary_message (nat random_column) columns_used of
                                    Inl e \<Rightarrow> Inl e
                                  | Inr img' \<Rightarrow> Inr (fs(new_filename @ ''.png'' \<mapsto> img')))))"

section \<open>Retrieving the message\<close>

text \<open>\<open>str(channel % 2)\<close>: the remainder is 0 or 1 for every integer.\<close>

definition parity_char :: "int \<Rightarrow> char" where
  "parity_char channel = (if channel mod 2 = 0 then CHR ''0'' else CHR ''1'')"

text \<open>
  \<^verbatim>\<open>
  for pixel_col in range(0, img.size[0]):
      for pixel_row in range(0, img.size[1]):
          pixel = pixel_map[pixel_col, pixel_row]
          for channel in pixel:
              raw_binary += str(channel % 2)
  \<close>
\<close>

definition raw_binary_of :: "image \<Rightarrow> string" where
  "raw_binary_of img =
     fold (\<lambda>pixel_col. fold (\<lambda>pixel_row.
              fold (\<lambda>channel raw_binary. raw_binary @ [parity_char channel])
                (list_of_pixel (pixels img (pixel_col, pixel_row))))
            [0..<height img])
       [0..<width img] []"

text \<open>
  The search for the opening delimiter; the result is \<open>msg_start\<close> when \<open>msg_found\<close>.
  \<^verbatim>\<open>
  for delim_start in range(0, len(raw_binary), img.size[1] * 3):
      prospective_delim = raw_binary[delim_start:delim_start + delim_bin_length]
      if binary_to_message(prospective_delim) == str(delimiter):
          msg_start = delim_start + delim_bin_length
          msg_found = True
          break
  \<close>
\<close>

fun delimiter_loop :: "string \<Rightarrow> nat \<Rightarrow> pystr \<Rightarrow> nat list \<Rightarrow> error + nat option" where
  "delimiter_loop raw_binary delim_bin_length delimiter [] = Inr None"
| "delimiter_loop raw_binary delim_bin_length delimiter (delim_start # rest) =
     (let prospective_delim = slice raw_binary delim_start (delim_start + delim_bin_length)
      in case binary_to_message prospective_delim of
           Inl e \<Rightarrow> Inl e
         | Inr decoded \<Rightarrow>
             if decoded = delimiter then Inr (Some (delim_start + delim_bin_length))
             else delimiter_loop raw_binary delim_bin_length delimiter rest)"

text \<open>\<open>s.find(sub)\<close>: the lowest index at which \<open>sub\<close> occurs in \<open>s\<close>, or \<open>-1\<close>.\<close>

primrec find_at :: "'a list \<Rightarrow> 'a list \<Rightarrow> nat \<Rightarrow> int" where
  "find_at [] sub i = (if sub = [] then int i else - 1)"
| "find_at (x # xs) sub i =
     (if take (length sub) (x # xs) = sub then int i else find_at xs sub (i + 1))"

definition py_find :: "'a list \<Rightarrow> 'a list \<Rightarrow> int" where
  "py_find s sub = find_at s sub 0"

text \<open>The slice \<open>s[:k]\<close>; a negative \<open>k\<close> counts from the end of \<open>s\<close>.\<close>

definition slice_to :: "'a list \<Rightarrow> int \<Rightarrow> 'a list" where
  "slice_to s k = (if k < 0 then take (nat (int (length s) + k)) s else take (nat k) s)"

text \<open>
  \<open>reveal_message\<close> returns a sentence when it refuses or finds nothing, and the
  recovered text otherwise. \<open>range\<close> raises \<open>ValueError\<close> for the step 0 of an image
  without rows.
\<close>

definition reveal_message :: "files \<Rightarrow> string \<Rightarrow> pystr \<Rightarrow> error + pystr" where
  "reveal_message fs image_filename delimiter =
     (if length delimiter = 0 then Inl (Reported Cannot_decrypt_without_a_supplied_delimiter)
      else
        case Image_open fs image_filename of
          Inl e \<Rightarrow> Inl e
        | Inr img \<Rightarrow>
            (let raw_binary = raw_binary_of img;
                 delim_bin_length = length delimiter * 8
             in if height img * 3 = 0 then Inl (Raised ValueError)
                else
                  case delimiter_loop raw_binary delim_bin_length delimiter
                         (py_range 0 (length raw_binary) (height img * 3)) of
                    Inl e \<Rightarrow> Inl e
                  | Inr None \<Rightarrow> Inl (Reported No_message_found)
                  | Inr (Some msg_start) \<Rightarrow>
                      (case binary_to_message (drop msg_start raw_binary) of
                         Inl e \<Rightarrow> Inl e
                       | Inr preprocessed_message \<Rightarrow>
                           Inr (slice_to preprocessed_message
                                  (py_find preprocessed_message delimiter)))))"

text \<open>
  An image given by its width, its height and the bits its channels carry, column by
  column: every channel is 0 or 1, the bit at its place, and 0 beyond the end of the bits.
\<close>

definition image_of_bits :: "nat \<Rightarrow> nat \<Rightarrow> string \<Rightarrow> image" where
  "image_of_bits w h bits =
     (let v = (\<lambda>k. if k < length bits \<and> bits ! k = CHR ''1'' then 1 else 0 :: int)
      in \<lparr>width = w, height = h,
          pixels = (\<lambda>(col, row).
            let k = 3 * (col * h + row) in (v k, v (k + 1), v (k + 2)))\<rparr>)"

section \<open>Notions used to state what the loops do\<close>

text \<open>The value read from a string of binary digits, continuing from the value \<open>a\<close>.\<close>

definition bit_fold :: "string \<Rightarrow> nat \<Rightarrow> nat" where
  "bit_fold s a = fold (\<lambda>c n. 2 * n + (if c = CHR ''1'' then 1 else 0)) s a"

text \<open>
  What the table \<open>evaluate_dict\<close> does to a channel: the value moves to the parity of
  the message bit, up from an even value and down from an odd one.
\<close>

definition adjust :: "int \<Rightarrow> char \<Rightarrow> int" where
  "adjust v c =
     (if c = CHR ''1'' then (if v mod 2 = 0 then v + 1 else v)
      else (if v mod 2 = 0 then v else v - 1))"

text \<open>
  A run of channel values after the bits have been written over its front: one bit for
  each channel, as far as the bits go, and the values beyond them as they were.
\<close>

fun overwrite :: "int list \<Rightarrow> string \<Rightarrow> int list" where
  "overwrite [] bits = []"
| "overwrite (v # vs) [] = v # vs"
| "overwrite (v # vs) (c # bits) = adjust v c # overwrite vs bits"

text \<open>The channel values of the pixels at the given places, in the order of the places.\<close>

definition channel_values :: "image \<Rightarrow> (nat \<times> nat) list \<Rightarrow> int list" where
  "channel_values img ps = concat (map (\<lambda>p. list_of_pixel (pixels img p)) ps)"

text \<open>The places of the given columns, column by column and from the top row down.\<close>

definition column_major :: "nat list \<Rightarrow> nat \<Rightarrow> (nat \<times> nat) list" where
  "column_major cols h = concat (map (\<lambda>col. map (Pair col) [0..<h]) cols)"

text \<open>
  How one channel may move: not at all, up by one from an even value, or down by one
  from an odd value.
\<close>

definition moved :: "int \<Rightarrow> int \<Rightarrow> bool" where
  "moved v' v = (v' = v \<or> (v' = v + 1 \<and> v mod 2 = 0) \<or> (v' = v - 1 \<and> v mod 2 = 1))"

text \<open>Every channel value of an image, in the order in which the decoder reads them.\<close>

definition all_channels :: "image \<Rightarrow> int list" where
  "all_channels img = channel_values img (column_major [0..<width img] (height img))"

text \<open>
  The two cells the notebook runs one after the other: hide a message, then read the
  saved file with the same delimiter.
\<close>

definition hide_then_reveal ::
  "nat \<Rightarrow> files \<Rightarrow> pystr \<Rightarrow> pystr \<Rightarrow> string \<Rightarrow> string \<Rightarrow> error + pystr" where
  "hide_then_reveal seed fs message delimiter image_filename new_filename =
     (case hide_in_image seed fs message delimiter image_filename new_filename of
        Inl e \<Rightarrow> Inl e
      | Inr fs' \<Rightarrow> reveal_message fs' (new_filename @ ''.png'') delimiter)"

text \<open>Whether the window of the raw bits at an offset reads as the delimiter.\<close>

definition window_matches :: "string \<Rightarrow> pystr \<Rightarrow> nat \<Rightarrow> bool" where
  "window_matches raw_binary delimiter delim_start =
     (binary_to_message (slice raw_binary delim_start (delim_start + length delimiter * 8))
        = Inr delimiter)"

text \<open>
  What \<open>reveal_message\<close> makes of the bits that follow an opening delimiter: the decoded
  text up to the index that \<open>find\<close> gives.
\<close>

definition message_after :: "string \<Rightarrow> pystr \<Rightarrow> nat \<Rightarrow> error + pystr" where
  "message_after raw_binary delimiter msg_start =
     (case binary_to_message (drop msg_start raw_binary) of
        Inl e \<Rightarrow> Inl e
      | Inr preprocessed_message \<Rightarrow>
          Inr (slice_to preprocessed_message (py_find preprocessed_message delimiter)))"

section \<open>The codec\<close>

lemma fold_append_concat:
  "fold (\<lambda>x acc. acc @ f x) xs acc = acc @ concat (map f xs)"
  by (induction xs arbitrary: acc) simp_all

lemma message_to_binary_concat:
  "message_to_binary message delimiter = concat (map format_08b (delimiter @ message @ delimiter))"
  unfolding message_to_binary_def Let_def fold_append_concat by simp

lemma length_bin_le: "0 < k \<Longrightarrow> n < 2 ^ k \<Longrightarrow> length (bin n) \<le> k"
proof (induction n arbitrary: k rule: bin.induct)
  case (1 n)
  show ?case
  proof (cases "n < 2")
    case True
    with "1.prems" show ?thesis by (simp add: bin.simps [of n])
  next
    case False
    obtain j where k: "k = Suc j" using "1.prems"(1) by (cases k) auto
    from False "1.prems"(2) k have j: "0 < j" by (cases j) auto
    from "1.prems"(2) k have "n div 2 < 2 ^ j" by auto
    from "1.IH" [OF False j this] False k show ?thesis
      by (simp add: bin.simps [of n])
  qed
qed

lemma list_all_is_bit_bin: "list_all is_bit (bin n)"
proof (induction n rule: bin.induct)
  case (1 n)
  then show ?case
    by (cases "n < 2") (simp_all add: bin.simps [of n] is_bit_def digit_char_def)
qed

lemma bin_not_Nil: "bin n \<noteq> []"
  by (simp add: bin.simps [of n])

lemma bit_fold_append: "bit_fold (s @ t) a = bit_fold t (bit_fold s a)"
  by (simp add: bit_fold_def)

lemma bit_fold_zeros: "bit_fold (replicate k CHR ''0'') 0 = 0"
  by (induction k) (simp_all add: bit_fold_def)

lemma bit_fold_bin: "bit_fold (bin n) 0 = n"
proof (induction n rule: bin.induct)
  case (1 n)
  show ?case
  proof (cases "n < 2")
    case True
    then have "n = 0 \<or> n = 1" by auto
    then show ?thesis
      by (auto simp: bin.simps [of n] bit_fold_def digit_char_def)
  next
    case False
    have "bit_fold (bin n) 0 = bit_fold [digit_char (n mod 2)] (bit_fold (bin (n div 2)) 0)"
      using False by (simp add: bin.simps [of n] bit_fold_append)
    also have "\<dots> = 2 * (n div 2) + (if n mod 2 = 0 then 0 else 1)"
      using "1.IH" [OF False] by (simp add: bit_fold_def digit_char_def)
    also have "\<dots> = n" by presburger
    finally show ?thesis .
  qed
qed

lemma length_format_08b: "n < 256 \<Longrightarrow> length (format_08b n) = 8"
  using length_bin_le [of 8 n] by (simp add: format_08b_def)

lemma list_all_is_bit_zeros: "list_all is_bit (replicate k CHR ''0'')"
  by (induction k) (simp_all add: is_bit_def)

lemma list_all_is_bit_format_08b: "list_all is_bit (format_08b n)"
  by (simp add: format_08b_def list_all_is_bit_bin list_all_is_bit_zeros)

lemma int_0b_format_08b: "int_0b (format_08b n) = Inr n"
proof -
  have "format_08b n \<noteq> []" by (simp add: format_08b_def bin_not_Nil)
  moreover have "bit_fold (format_08b n) 0 = n"
    by (simp add: format_08b_def bit_fold_append bit_fold_zeros bit_fold_bin)
  ultimately show ?thesis
    using list_all_is_bit_format_08b [of n] by (simp add: int_0b_def bit_fold_def)
qed

lemma py_range_step:
  "0 < step \<Longrightarrow> start < stop \<Longrightarrow>
   py_range start stop step = start # py_range (start + step) stop step"
  by (simp add: py_range.simps [of start])

lemma py_range_empty: "stop \<le> start \<Longrightarrow> py_range start stop step = []"
  by (simp add: py_range.simps [of start])

lemma length_concat_format_08b:
  "list_all (\<lambda>c. c < 256) xs \<Longrightarrow> length (concat (map format_08b xs)) = 8 * length xs"
  by (induction xs) (simp_all add: length_format_08b)

lemma decode_loop_acc:
  "decode_loop s idxs acc =
     (case decode_loop s idxs [] of Inl e \<Rightarrow> Inl e | Inr t \<Rightarrow> Inr (acc @ t))"
proof (induction idxs arbitrary: acc)
  case Nil
  show ?case by simp
next
  case (Cons i idxs)
  show ?case
    using Cons.IH [of "acc @ [_]"] Cons.IH [of "[_]"]
    by (simp split: sum.splits)
qed

lemma py_range_shift:
  "0 < step \<Longrightarrow> py_range (a + k) (b + k) step = map (\<lambda>i. i + k) (py_range a b step)"
proof (induction a b step rule: py_range.induct)
  case (1 start stop step)
  show ?case
  proof (cases "stop \<le> start")
    case True
    then show ?thesis by (simp add: py_range_empty)
  next
    case False
    with "1.prems" "1.IH" have "py_range (start + step + k) (stop + k) step
        = map (\<lambda>i. i + k) (py_range (start + step) stop step)" by simp
    with False "1.prems" show ?thesis
      by (simp add: py_range_step add.commute add.left_commute)
  qed
qed

lemma slice_append_shift: "slice (pre @ s) (i + length pre) (j + length pre) = slice s i j"
  by (simp add: slice_def)

lemma decode_loop_shift:
  "decode_loop (pre @ s) (map (\<lambda>i. i + length pre) idxs) acc = decode_loop s idxs acc"
proof (induction idxs arbitrary: acc)
  case Nil
  show ?case by simp
next
  case (Cons i idxs)
  have "slice (pre @ s) (i + length pre) (i + length pre + 8) = slice s i (i + 8)"
    by (simp add: slice_def)
  then show ?case by (simp add: Cons.IH split: sum.splits)
qed

lemma binary_to_message_Nil: "binary_to_message [] = Inr []"
  by (simp add: binary_to_message_def py_range_empty)

lemma binary_to_message_unfold:
  assumes "s \<noteq> []"
  shows "binary_to_message s =
     (case int_0b (take 8 s) of
        Inl e \<Rightarrow> Inl e
      | Inr n \<Rightarrow>
          (case chr n of
             Inl e \<Rightarrow> Inl e
           | Inr ch \<Rightarrow>
               (case binary_to_message (drop 8 s) of
                  Inl e \<Rightarrow> Inl e
                | Inr t \<Rightarrow> Inr (ch # t))))"
proof -
  have rng: "py_range 0 (length s) 8 = 0 # py_range 8 (length s) 8"
    using assms py_range_step [of 8 0 "length s"] by simp
  have rest: "decode_loop s (py_range 8 (length s) 8) [] = binary_to_message (drop 8 s)"
  proof (cases "length s \<le> 8")
    case True
    then show ?thesis by (simp add: py_range_empty binary_to_message_Nil)
  next
    case False
    then have len: "length (take 8 s) = 8" by simp
    have "py_range 8 (length s) 8 = py_range (0 + 8) (length (drop 8 s) + 8) 8"
      using False by simp
    also have "\<dots> = map (\<lambda>i. i + length (take 8 s)) (py_range 0 (length (drop 8 s)) 8)"
      unfolding len by (rule py_range_shift) simp
    finally have "decode_loop s (py_range 8 (length s) 8) []
        = decode_loop (take 8 s @ drop 8 s)
            (map (\<lambda>i. i + length (take 8 s)) (py_range 0 (length (drop 8 s)) 8)) []"
      by simp
    also have "\<dots> = decode_loop (drop 8 s) (py_range 0 (length (drop 8 s)) 8) []"
      by (rule decode_loop_shift)
    finally show ?thesis by (simp add: binary_to_message_def)
  qed
  have "slice s 0 (0 + 8) = take 8 s" by (simp add: slice_def)
  then show ?thesis
    unfolding binary_to_message_def [of s] rng
    using rest decode_loop_acc [of s "py_range 8 (length s) 8" "[_]"]
    by (simp split: sum.splits)
qed

lemma binary_to_message_frame:
  assumes "x < 256"
  shows "binary_to_message (format_08b x @ rest) =
     (case binary_to_message rest of Inl e \<Rightarrow> Inl e | Inr t \<Rightarrow> Inr (x # t))"
proof -
  have "format_08b x @ rest \<noteq> []" using length_format_08b [OF assms] by auto
  moreover have "take 8 (format_08b x @ rest) = format_08b x"
    and "drop 8 (format_08b x @ rest) = rest"
    using length_format_08b [OF assms] by simp_all
  ultimately show ?thesis
    using assms by (simp add: binary_to_message_unfold int_0b_format_08b chr_def)
qed

lemma binary_to_message_frames:
  "list_all (\<lambda>c. c < 256) xs \<Longrightarrow>
   binary_to_message (concat (map format_08b xs) @ rest) =
     (case binary_to_message rest of Inl e \<Rightarrow> Inl e | Inr t \<Rightarrow> Inr (xs @ t))"
  by (induction xs) (simp_all add: binary_to_message_frame split: sum.splits)

lemma bit_fold_less: "bit_fold s a < (a + 1) * 2 ^ length s"
proof (induction s arbitrary: a)
  case Nil
  show ?case by (simp add: bit_fold_def)
next
  case (Cons c s)
  have "bit_fold (c # s) a = bit_fold s (2 * a + (if c = CHR ''1'' then 1 else 0))"
    by (simp add: bit_fold_def)
  also have "\<dots> < (2 * a + (if c = CHR ''1'' then 1 else 0) + 1) * 2 ^ length s"
    by (rule Cons.IH)
  also have "\<dots> \<le> (2 * a + 2) * 2 ^ length s" by simp
  also have "\<dots> = (a + 1) * 2 ^ length (c # s)" by simp
  finally show ?case .
qed

lemma int_0b_bits:
  assumes "s \<noteq> []" and "list_all is_bit s" and "length s \<le> 8"
  shows "\<exists>n<256. int_0b s = Inr n"
proof -
  have "bit_fold s 0 < 2 ^ length s" using bit_fold_less [of s 0] by simp
  also have "\<dots> \<le> 2 ^ 8" using assms(3) by (intro power_increasing) simp_all
  finally have "bit_fold s 0 < 256" by simp
  with assms(1,2) show ?thesis by (simp add: int_0b_def bit_fold_def)
qed

lemma binary_to_message_total:
  "list_all is_bit s \<Longrightarrow> \<exists>t. binary_to_message s = Inr t"
proof (induction "length s" arbitrary: s rule: less_induct)
  case less
  show ?case
  proof (cases "s = []")
    case True
    then show ?thesis by (simp add: binary_to_message_Nil)
  next
    case False
    have "take 8 s \<noteq> []" using False by simp
    moreover have "list_all is_bit (take 8 s)"
      using less.prems by (simp add: list_all_iff) (meson in_set_takeD)
    ultimately obtain n where n: "n < 256" "int_0b (take 8 s) = Inr n"
      using int_0b_bits [of "take 8 s"] by auto
    have "list_all is_bit (drop 8 s)"
      using less.prems by (simp add: list_all_iff) (meson in_set_dropD)
    moreover have "length (drop 8 s) < length s" using False by simp
    ultimately obtain t where "binary_to_message (drop 8 s) = Inr t"
      using less.hyps by blast
    with n False show ?thesis by (simp add: binary_to_message_unfold chr_def)
  qed
qed

text \<open>
  C9. Encoding the message \<open>hi\<close> with the delimiter \<open>##\<close> gives the 48 binary digits
  of \<open>#\<close>, \<open>#\<close>, \<open>h\<close>, \<open>i\<close>, \<open>#\<close>, \<open>#\<close>, eight for each character with the
  most significant first, and decoding these 48 digits gives the text \<open>##hi##\<close>.
\<close>

theorem hi_scenario:
  "message_to_binary (text_of ''hi'') (text_of ''##'')
     = ''001000110010001101101000011010010010001100100011''
   \<and> binary_to_message ''001000110010001101101000011010010010001100100011''
     = Inr (text_of ''##hi##'')"
proof
  show "message_to_binary (text_of ''hi'') (text_of ''##'')
     = ''001000110010001101101000011010010010001100100011''"
    by code_simp
  show "binary_to_message ''001000110010001101101000011010010010001100100011''
     = Inr (text_of ''##hi##'')"
    by (simp add: binary_to_message_def py_range.simps int_0b_def is_bit_def chr_def
        slice_def text_of_def)
qed

text \<open>
  C4. When every character of the message and of the delimiter has a code point below
  256, decoding the binary form of the message framed by the delimiter gives back the
  framed text: delimiter, message, delimiter.
\<close>

theorem codec_round_trip:
  assumes "list_all (\<lambda>c. c < 256) message" and "list_all (\<lambda>c. c < 256) delimiter"
  shows "binary_to_message (message_to_binary message delimiter)
    = Inr (delimiter @ message @ delimiter)"
proof -
  have "list_all (\<lambda>c. c < 256) (delimiter @ message @ delimiter)"
    using assms by simp
  from binary_to_message_frames [OF this, of "[]"] show ?thesis
    by (simp add: message_to_binary_concat binary_to_message_Nil del: map_append)
qed

theorem codec_round_trip_witness:
  "list_all (\<lambda>c. c < 256) (text_of ''hello world'')
   \<and> list_all (\<lambda>c. c < 256) (text_of ''######'')
   \<and> binary_to_message (message_to_binary (text_of ''hello world'') (text_of ''######''))
     = Inr (text_of ''######hello world######'')"
proof -
  have m: "list_all (\<lambda>c. c < 256) (text_of ''hello world'')"
    by (simp add: text_of_def)
  have d: "list_all (\<lambda>c. c < 256) (text_of ''######'')"
    by (simp add: text_of_def)
  from codec_round_trip [OF m d] m d show ?thesis
    by (simp add: text_of_def)
qed

text \<open>
  The bound of C4 is needed: a character with code point 256 is written with nine
  binary digits, and the eight-digit reader returns another text.
\<close>

lemma codec_beyond_one_byte:
  "binary_to_message (message_to_binary [256] [35]) = Inr [35, 128, 17, 1]"
proof -
  have "message_to_binary [256] [35] = ''0010001110000000000100011''"
    by code_simp
  then show ?thesis
    by (simp add: binary_to_message_def py_range.simps int_0b_def is_bit_def chr_def slice_def)
qed

section \<open>What the encoding loops do\<close>

lemma is_bit_int_of_char:
  "is_bit c \<Longrightarrow> int_of_char c = Inr (if c = CHR ''1'' then 1 else 0)"
  by (auto simp: is_bit_def int_of_char_def)

lemma is_bit_evaluate_dict:
  "evaluate_dict (v mod 2, if c = CHR ''1'' then 1 else 0) = Some (adjust v c - v)"
proof -
  have "v mod 2 = 0 \<or> v mod 2 = 1" by presburger
  then show ?thesis by (auto simp: evaluate_dict_def adjust_def)
qed

lemma not_bit_evaluate_dict:
  assumes "\<not> is_bit c" and "int_of_char c = Inr b"
  shows "evaluate_dict (x, b) = None"
proof -
  from assms(2) have b: "b = int (of_char c) - 48"
    by (simp add: int_of_char_def Let_def split: if_splits)
  have "of_char c \<noteq> (48 :: nat)"
  proof
    assume "of_char c = (48 :: nat)"
    then have "of_char c = (of_char CHR ''0'' :: nat)" by simp
    then have "c = CHR ''0''" by (simp only: of_char_eq_iff)
    with assms(1) show False by (simp add: is_bit_def)
  qed
  moreover have "of_char c \<noteq> (49 :: nat)"
  proof
    assume "of_char c = (49 :: nat)"
    then have "of_char c = (of_char CHR ''1'' :: nat)" by simp
    then have "c = CHR ''1''" by (simp only: of_char_eq_iff)
    with assms(1) show False by (simp add: is_bit_def)
  qed
  ultimately have "b \<noteq> 0" and "b \<noteq> 1" using b by auto
  then show ?thesis by (simp add: evaluate_dict_def)
qed

text \<open>One turn of the channel loop, for the channel value \<open>v\<close> and the character \<open>c\<close>.\<close>

lemma channel_turn:
  "(case int_of_char c of
      Inl e \<Rightarrow> Inl e
    | Inr b \<Rightarrow> (case evaluate_dict (v mod 2, b) of None \<Rightarrow> Inl (Raised KeyError) | Some d \<Rightarrow> f d))
   = (if is_bit c then f (adjust v c - v)
      else Inl (case int_of_char c of Inl e \<Rightarrow> e | Inr b \<Rightarrow> Raised KeyError))"
proof (cases "is_bit c")
  case True
  then show ?thesis
    using is_bit_evaluate_dict [of v c] by (simp add: is_bit_int_of_char)
next
  case False
  then show ?thesis
    by (auto simp: not_bit_evaluate_dict split: sum.splits)
qed

lemma overwrite_Nil2 [simp]: "overwrite vs [] = vs"
  by (cases vs) simp_all

lemma channel_loop_effect:
  assumes "idx < length bm"
  shows "case channel_loop bm p [0, 1, 2] (list_of_pixel p) idx of
           Inl e \<Rightarrow> \<not> list_all is_bit bm
         | Inr (new_value, idx') \<Rightarrow>
             new_value = overwrite (list_of_pixel p) (drop idx bm)
             \<and> idx' = min (length bm) (idx + 3)"
proof -
  obtain r g b where p: "p = (r, g, b)" by (cases p)
  have bits: "\<not> is_bit (bm ! k) \<Longrightarrow> k < length bm \<Longrightarrow> \<not> list_all is_bit bm" for k
    by (auto simp: list_all_length)
  consider "length bm = idx + 1" | "length bm = idx + 2" | "idx + 3 \<le> length bm"
    using assms by linarith
  then show ?thesis
  proof cases
    case 1
    then have d: "drop idx bm = [bm ! idx]"
      by (metis Cons_nth_drop_Suc Suc_eq_plus1 assms drop_all le_refl)
    show ?thesis
      using 1 bits [of idx] by (simp add: p d channel_turn Let_def)
  next
    case 2
    then have d: "drop idx bm = [bm ! idx, bm ! (idx + 1)]"
      using Cons_nth_drop_Suc [of idx bm] Cons_nth_drop_Suc [of "idx + 1" bm] by simp
    show ?thesis
      using 2 bits [of idx] bits [of "idx + 1"] by (simp add: p d channel_turn Let_def)
  next
    case 3
    then have d: "drop idx bm = bm ! idx # bm ! (idx + 1) # bm ! (idx + 2) # drop (idx + 3) bm"
      using Cons_nth_drop_Suc [of idx bm] Cons_nth_drop_Suc [of "idx + 1" bm]
        Cons_nth_drop_Suc [of "idx + 2" bm]
      by (simp add: numeral_3_eq_3)
    show ?thesis
      using 3 bits [of idx] bits [of "idx + 1"] bits [of "idx + 2"]
      by (simp add: p d channel_turn Let_def)
  qed
qed

lemma length_overwrite [simp]: "length (overwrite vs bits) = length vs"
  by (induction vs bits rule: overwrite.induct) simp_all

lemma overwrite_append:
  "overwrite (xs @ ys) bits = overwrite xs bits @ overwrite ys (drop (length xs) bits)"
proof (induction xs arbitrary: bits)
  case Nil
  show ?case by simp
next
  case (Cons x xs)
  show ?case by (cases bits) (simp_all add: Cons.IH)
qed

lemma length_list_of_pixel [simp]: "length (list_of_pixel p) = 3"
  by (cases p) simp

lemma list_of_pixel_tuple_of: "length vs = 3 \<Longrightarrow> list_of_pixel (tuple_of vs) = vs"
proof -
  assume "length vs = 3"
  then obtain a b c where "vs = [a, b, c]"
    by (metis (no_types) length_0_conv length_Suc_conv numeral_3_eq_3)
  then show ?thesis by (simp add: tuple_of_def)
qed

lemma length_channel_values [simp]: "length (channel_values img ps) = 3 * length ps"
  by (induction ps) (simp_all add: channel_values_def)

lemma channel_values_Cons:
  "channel_values img (p # ps) = list_of_pixel (pixels img p) @ channel_values img ps"
  by (simp add: channel_values_def)

lemma channel_values_append:
  "channel_values img (ps @ qs) = channel_values img ps @ channel_values img qs"
  by (simp add: channel_values_def)

lemma channel_values_cong:
  "(\<And>p. p \<in> set ps \<Longrightarrow> pixels a p = pixels b p) \<Longrightarrow> channel_values a ps = channel_values b ps"
  by (induction ps) (simp_all add: channel_values_def)

lemma drop_min_length: "drop (min (length xs) k) xs = drop k xs"
  by (cases "k \<le> length xs") (simp_all add: min_def)

lemma row_loop_effect:
  assumes "idx \<le> length bm" and "distinct rows"
  shows "case row_loop bm col rows img idx of
           Inl e \<Rightarrow>
             \<not> (list_all is_bit bm \<and> col < width img \<and> list_all (\<lambda>r. r < height img) rows)
         | Inr (img', idx') \<Rightarrow>
             idx' = min (length bm) (idx + 3 * length rows)
             \<and> width img' = width img \<and> height img' = height img
             \<and> (\<forall>p. p \<notin> Pair col ` set rows \<longrightarrow> pixels img' p = pixels img p)
             \<and> channel_values img' (map (Pair col) rows)
               = overwrite (channel_values img (map (Pair col) rows)) (drop idx bm)"
  using assms
proof (induction rows arbitrary: img idx)
  case Nil
  then show ?case by (simp add: channel_values_def)
next
  case (Cons r rows)
  show ?case
  proof (cases "idx = length bm")
    case True
    then show ?thesis by simp
  next
    case False
    with Cons.prems have idx: "idx < length bm" by simp
    show ?thesis
    proof (cases "col < width img \<and> r < height img")
      case False
      then show ?thesis using idx by (auto simp: getpixel_def)
    next
      case inside: True
      let ?pixel = "pixels img (col, r)"
      show ?thesis
      proof (cases "channel_loop bm ?pixel [0, 1, 2] (list_of_pixel ?pixel) idx")
        case (Inl e)
        with channel_loop_effect [OF idx, of ?pixel] have "\<not> list_all is_bit bm" by simp
        with Inl idx inside show ?thesis by (simp add: getpixel_def)
      next
        case (Inr res)
        obtain nv idx1 where res: "res = (nv, idx1)" by (cases res)
        from channel_loop_effect [OF idx, of ?pixel] Inr res
        have nv: "nv = overwrite (list_of_pixel ?pixel) (drop idx bm)"
          and idx1: "idx1 = min (length bm) (idx + 3)" by simp_all
        let ?img1 = "putpixel img col r (tuple_of nv)"
        have step: "row_loop bm col (r # rows) img idx = row_loop bm col rows ?img1 idx1"
          using idx inside Inr res by (simp add: getpixel_def)
        have idx1_le: "idx1 \<le> length bm" using idx1 by simp
        from Cons.prems have dist: "distinct rows" and r: "r \<notin> set rows" by simp_all
        note IH = Cons.IH [OF idx1_le dist, of ?img1]
        show ?thesis
        proof (cases "row_loop bm col rows ?img1 idx1")
          case (Inl e)
          with IH show ?thesis unfolding step by (simp add: putpixel_def)
        next
          case (Inr res')
          obtain img' idx' where res': "res' = (img', idx')" by (cases res')
          from IH Inr res'
          have a: "idx' = min (length bm) (idx1 + 3 * length rows)"
            and b: "width img' = width ?img1" "height img' = height ?img1"
            and c: "\<And>p. p \<notin> Pair col ` set rows \<Longrightarrow> pixels img' p = pixels ?img1 p"
            and d: "channel_values img' (map (Pair col) rows)
               = overwrite (channel_values ?img1 (map (Pair col) rows)) (drop idx1 bm)"
            by (simp_all del: split_paired_All)
          have a': "idx' = min (length bm) (idx + 3 * length (r # rows))"
            using a idx1 by simp
          have c': "\<forall>p. p \<notin> Pair col ` set (r # rows) \<longrightarrow> pixels img' p = pixels img p"
            using c by (auto simp: putpixel_def)
          have "(col, r) \<notin> Pair col ` set rows" using r by auto
          then have "pixels img' (col, r) = tuple_of nv"
            using c [of "(col, r)"] by (simp add: putpixel_def)
          then have here: "list_of_pixel (pixels img' (col, r)) = nv"
            using nv by (simp add: list_of_pixel_tuple_of)
          have same: "channel_values ?img1 (map (Pair col) rows) = channel_values img (map (Pair col) rows)"
            using r by (intro channel_values_cong) (auto simp: putpixel_def)
          have dr: "drop idx1 bm = drop (length (list_of_pixel ?pixel)) (drop idx bm)"
            using idx1 drop_min_length [of bm "idx + 3"] by (simp add: add.commute)
          have d': "channel_values img' (map (Pair col) (r # rows))
               = overwrite (channel_values img (map (Pair col) (r # rows))) (drop idx bm)"
          proof -
            have "channel_values img' (map (Pair col) (r # rows))
                = nv @ overwrite (channel_values img (map (Pair col) rows)) (drop idx1 bm)"
              using here d same by (simp add: channel_values_Cons)
            also have "\<dots> = overwrite (list_of_pixel ?pixel @ channel_values img (map (Pair col) rows))
                (drop idx bm)"
              unfolding overwrite_append nv dr ..
            finally show ?thesis by (simp add: channel_values_Cons)
          qed
          from a' b c' d' show ?thesis
            unfolding step Inr res' by (simp add: putpixel_def)
        qed
      qed
    qed
  qed
qed

lemma column_major_Cons:
  "column_major (col # cols) h = map (Pair col) [0..<h] @ column_major cols h"
  by (simp add: column_major_def)

lemma column_major_append:
  "column_major (cols @ cols') h = column_major cols h @ column_major cols' h"
  by (simp add: column_major_def)

lemma set_column_major: "set (column_major cols h) = set cols \<times> {0..<h}"
  by (auto simp: column_major_def)

lemma length_column_major [simp]: "length (column_major cols h) = length cols * h"
  by (induction cols) (simp_all add: column_major_def)

lemma column_loop_effect:
  assumes "idx \<le> length bm" and "distinct cols"
  shows "case column_loop bm cols img idx of
           Inl e \<Rightarrow> \<not> (list_all is_bit bm \<and> list_all (\<lambda>c. c < width img) cols)
         | Inr (img', idx') \<Rightarrow>
             idx' = min (length bm) (idx + 3 * (length cols * height img))
             \<and> width img' = width img \<and> height img' = height img
             \<and> (\<forall>p. p \<notin> set (column_major cols (height img)) \<longrightarrow> pixels img' p = pixels img p)
             \<and> channel_values img' (column_major cols (height img))
               = overwrite (channel_values img (column_major cols (height img))) (drop idx bm)"
  using assms
proof (induction cols arbitrary: img idx)
  case Nil
  then show ?case by (simp add: column_major_def channel_values_def)
next
  case (Cons c cols)
  let ?h = "height img"
  let ?col = "map (Pair c) [0..<?h]"
  have rows: "distinct [0..<?h]" by simp
  note R = row_loop_effect [OF Cons.prems(1) rows, of c img]
  from Cons.prems have dist: "distinct cols" and c: "c \<notin> set cols" by simp_all
  show ?case
  proof (cases "row_loop bm c [0..<?h] img idx")
    case (Inl e)
    with R have "\<not> (list_all is_bit bm \<and> c < width img)"
      by (simp add: list_all_iff)
    with Inl show ?thesis by auto
  next
    case (Inr res)
    obtain img1 idx1 where res: "res = (img1, idx1)" by (cases res)
    from R Inr res
    have idx1: "idx1 = min (length bm) (idx + 3 * ?h)"
      and dims1: "width img1 = width img" "height img1 = ?h"
      and frame1: "\<And>p. p \<notin> Pair c ` set [0..<?h] \<Longrightarrow> pixels img1 p = pixels img p"
      and vals1: "channel_values img1 ?col = overwrite (channel_values img ?col) (drop idx bm)"
      by (simp_all del: split_paired_All)
    have step: "column_loop bm (c # cols) img idx = column_loop bm cols img1 idx1"
      using Inr res by simp
    have idx1_le: "idx1 \<le> length bm" using idx1 by simp
    note IH = Cons.IH [OF idx1_le dist, of img1]
    show ?thesis
    proof (cases "column_loop bm cols img1 idx1")
      case (Inl e)
      with IH dims1 show ?thesis unfolding step by simp
    next
      case (Inr res')
      obtain img' idx' where res': "res' = (img', idx')" by (cases res')
      let ?rest = "column_major cols ?h"
      from IH Inr res' dims1
      have a: "idx' = min (length bm) (idx1 + 3 * (length cols * ?h))"
        and b: "width img' = width img" "height img' = ?h"
        and frame2: "\<And>p. p \<notin> set ?rest \<Longrightarrow> pixels img' p = pixels img1 p"
        and vals2: "channel_values img' ?rest = overwrite (channel_values img1 ?rest) (drop idx1 bm)"
        by (simp_all del: split_paired_All)
      have a': "idx' = min (length bm) (idx + 3 * (length (c # cols) * ?h))"
        using a idx1 by (simp add: algebra_simps)
      have c': "\<forall>p. p \<notin> set (column_major (c # cols) ?h) \<longrightarrow> pixels img' p = pixels img p"
        using frame1 frame2 by (auto simp: column_major_Cons)
      have col_same: "channel_values img' ?col = channel_values img1 ?col"
        using c by (intro channel_values_cong frame2) (auto simp: set_column_major)
      have rest_same: "channel_values img1 ?rest = channel_values img ?rest"
        using c by (intro channel_values_cong frame1) (auto simp: set_column_major)
      have dr: "drop idx1 bm = drop (length (channel_values img ?col)) (drop idx bm)"
        using idx1 drop_min_length [of bm "idx + 3 * ?h"] by (simp add: add.commute)
      have d': "channel_values img' (column_major (c # cols) ?h)
          = overwrite (channel_values img (column_major (c # cols) ?h)) (drop idx bm)"
      proof -
        have "channel_values img' (column_major (c # cols) ?h)
            = overwrite (channel_values img ?col) (drop idx bm)
              @ overwrite (channel_values img ?rest) (drop idx1 bm)"
          using col_same vals1 vals2 rest_same
          by (simp add: column_major_Cons channel_values_append)
        also have "\<dots> = overwrite (channel_values img ?col @ channel_values img ?rest) (drop idx bm)"
          unfolding overwrite_append dr ..
        finally show ?thesis by (simp add: column_major_Cons channel_values_append)
      qed
      from a' b c' d' show ?thesis
        unfolding step Inr res' by simp
    qed
  qed
qed

lemma embed_effect:
  "case embed img bm start columns_used of
     Inl e \<Rightarrow>
       \<not> (list_all is_bit bm \<and> list_all (\<lambda>c. c < width img) [start..<start + columns_used])
   | Inr img' \<Rightarrow>
       width img' = width img \<and> height img' = height img
       \<and> (\<forall>p. p \<notin> set (column_major [start..<start + columns_used] (height img))
            \<longrightarrow> pixels img' p = pixels img p)
       \<and> channel_values img' (column_major [start..<start + columns_used] (height img))
         = overwrite (channel_values img (column_major [start..<start + columns_used] (height img))) bm"
  using column_loop_effect [of 0 bm "[start..<start + columns_used]" img]
  by (simp add: embed_def split: sum.splits prod.splits del: split_paired_All)

lemma moved_adjust: "moved (adjust v c) v"
proof -
  have "v mod 2 = 0 \<or> v mod 2 = 1" by presburger
  then show ?thesis by (auto simp: moved_def adjust_def)
qed

lemma moved_refl: "moved v v"
  by (simp add: moved_def)

lemma list_all2_moved_overwrite: "list_all2 moved (overwrite vs bits) vs"
  by (induction vs bits rule: overwrite.induct)
    (simp_all add: moved_adjust moved_refl list_all2_refl)

lemma list_all2_channel_values:
  "list_all2 P (channel_values a ps) (channel_values b ps)
   \<longleftrightarrow> list_all (\<lambda>p. list_all2 P (list_of_pixel (pixels a p)) (list_of_pixel (pixels b p))) ps"
  by (induction ps) (simp_all add: channel_values_Cons list_all2_append channel_values_def)

lemma embed_moves:
  assumes "embed img bm start columns_used = Inr img'"
  shows "list_all2 moved (list_of_pixel (pixels img' p)) (list_of_pixel (pixels img p))"
proof -
  let ?span = "column_major [start..<start + columns_used] (height img)"
  from embed_effect [where img = img and bm = bm and start = start and columns_used = columns_used] assms
  have frame: "\<And>q. q \<notin> set ?span \<Longrightarrow> pixels img' q = pixels img q"
    and vals: "channel_values img' ?span = overwrite (channel_values img ?span) bm"
    by (simp_all del: split_paired_All)
  show ?thesis
  proof (cases "p \<in> set ?span")
    case True
    have "list_all2 moved (channel_values img' ?span) (channel_values img ?span)"
      unfolding vals by (rule list_all2_moved_overwrite)
    with True show ?thesis
      by (simp add: list_all2_channel_values list_all_iff)
  next
    case False
    then show ?thesis by (simp add: frame list_all2_refl moved_refl)
  qed
qed

lemma embed_returns:
  assumes "list_all is_bit bm" and "start + columns_used \<le> width img"
  shows "\<exists>img'. embed img bm start columns_used = Inr img'"
proof (cases "embed img bm start columns_used")
  case (Inl e)
  with embed_effect [where img = img and bm = bm and start = start and columns_used = columns_used] assms show ?thesis
    by (simp add: list_all_iff)
next
  case (Inr img')
  then show ?thesis by simp
qed

lemma parity_char_adjust: "is_bit c \<Longrightarrow> parity_char (adjust v c) = c"
proof -
  assume "is_bit c"
  moreover have "v mod 2 = 0 \<or> v mod 2 = 1" by presburger
  ultimately show ?thesis
    by (auto simp: is_bit_def parity_char_def adjust_def) presburger+
qed

lemma parity_overwrite:
  "list_all is_bit bits \<Longrightarrow> length bits \<le> length vs \<Longrightarrow>
   map parity_char (overwrite vs bits) = bits @ drop (length bits) (map parity_char vs)"
  by (induction vs bits rule: overwrite.induct) (simp_all add: parity_char_adjust)

lemma take_overwrite_parity:
  "list_all is_bit bits \<Longrightarrow> length bits \<le> length vs \<Longrightarrow>
   map parity_char (take (length bits) (overwrite vs bits)) = bits"
  by (induction vs bits rule: overwrite.induct) (simp_all add: parity_char_adjust)

lemma drop_overwrite: "drop (length bits) (overwrite vs bits) = drop (length bits) vs"
  by (induction vs bits rule: overwrite.induct) simp_all

text \<open>
  C5. Whenever the encoding loops return an image, each channel of each of its pixels
  differs from the channel of the image they were given by at most 1; and they do return
  an image when the bit string holds binary digits only and the planned columns lie
  inside the image.
\<close>

theorem single_bit_perturbation:
  "(list_all is_bit bm \<and> start + columns_used \<le> width img
      \<longrightarrow> (\<exists>img'. embed img bm start columns_used = Inr img'))
   \<and> (\<forall>img' p. embed img bm start columns_used = Inr img'
      \<longrightarrow> list_all2 (\<lambda>v' v. \<bar>v' - v\<bar> \<le> 1)
            (list_of_pixel (pixels img' p)) (list_of_pixel (pixels img p)))"
proof (intro conjI allI impI)
  assume "list_all is_bit bm \<and> start + columns_used \<le> width img"
  then show "\<exists>img'. embed img bm start columns_used = Inr img'"
    using embed_returns by blast
next
  fix img' p
  assume "embed img bm start columns_used = Inr img'"
  then have "list_all2 moved (list_of_pixel (pixels img' p)) (list_of_pixel (pixels img p))"
    by (rule embed_moves)
  then show "list_all2 (\<lambda>v' v. \<bar>v' - v\<bar> \<le> 1)
      (list_of_pixel (pixels img' p)) (list_of_pixel (pixels img p))"
    by (rule list_all2_mono) (auto simp: moved_def)
qed

theorem single_bit_perturbation_witness:
  "list_all is_bit ''1101'' \<and> 0 + 1 \<le> width (image_of_bits 2 2 ''010101010101'')
   \<and> (\<exists>img'. embed (image_of_bits 2 2 ''010101010101'') ''1101'' 0 1 = Inr img'
        \<and> list_all2 (\<lambda>v' v. \<bar>v' - v\<bar> \<le> 1)
            (list_of_pixel (pixels img' (0, 1)))
            (list_of_pixel (pixels (image_of_bits 2 2 ''010101010101'') (0, 1))))"
proof -
  have pre: "list_all is_bit ''1101'' \<and> 0 + 1 \<le> width (image_of_bits 2 2 ''010101010101'')"
    by (simp add: is_bit_def image_of_bits_def)
  note T = single_bit_perturbation [of "''1101''" 0 1 "image_of_bits 2 2 ''010101010101''"]
  from T pre obtain img' where
    "embed (image_of_bits 2 2 ''010101010101'') ''1101'' 0 1 = Inr img'" by blast
  with T pre show ?thesis by blast
qed

lemma embed_dims:
  assumes "embed img bm start columns_used = Inr img'"
  shows "width img' = width img" and "height img' = height img"
  using embed_effect [where img = img and bm = bm and start = start and columns_used = columns_used]
    assms by (simp_all del: split_paired_All)

lemma embed_moves_all:
  assumes "embed img bm start columns_used = Inr img'"
  shows "list_all2 moved (all_channels img') (all_channels img)"
  using embed_moves [OF assms] embed_dims [OF assms]
  by (simp add: all_channels_def list_all2_channel_values list_all_iff)

lemma moved_in_range:
  "list_all2 moved vs' vs \<Longrightarrow> list_all (\<lambda>v. 0 \<le> v \<and> v \<le> 255) vs \<Longrightarrow>
   list_all (\<lambda>v. 0 \<le> v \<and> v \<le> 255) vs'"
proof (induction rule: list_all2_induct)
  case Nil
  show ?case by simp
next
  case (Cons v' vs' v vs)
  from Cons.prems have "0 \<le> v \<and> v \<le> 255" by simp
  with Cons.hyps(1) have "0 \<le> v' \<and> v' \<le> 255"
    unfolding moved_def by presburger
  with Cons show ?case by simp
qed

text \<open>
  C10. When every channel value of the image lies between 0 and 255 and the encoding
  loops return an image, every channel value of that image lies between 0 and 255 too:
  a channel stays, or goes up by one from an even value, or down by one from an odd
  value. The loops do return an image when the bit string holds binary digits only and
  the planned columns lie inside the image.
\<close>

theorem channel_range_invariant:
  "(list_all is_bit bm \<and> start + columns_used \<le> width img
      \<longrightarrow> (\<exists>img'. embed img bm start columns_used = Inr img'))
   \<and> (\<forall>img'. embed img bm start columns_used = Inr img'
          \<and> list_all (\<lambda>v. 0 \<le> v \<and> v \<le> 255) (all_channels img)
      \<longrightarrow> list_all (\<lambda>v. 0 \<le> v \<and> v \<le> 255) (all_channels img')
          \<and> list_all2 moved (all_channels img') (all_channels img))"
proof (intro conjI allI impI)
  assume "list_all is_bit bm \<and> start + columns_used \<le> width img"
  then show "\<exists>img'. embed img bm start columns_used = Inr img'"
    using embed_returns by blast
next
  fix img'
  assume a: "embed img bm start columns_used = Inr img'
    \<and> list_all (\<lambda>v. 0 \<le> v \<and> v \<le> 255) (all_channels img)"
  then show "list_all2 moved (all_channels img') (all_channels img)"
    using embed_moves_all by blast
  with a show "list_all (\<lambda>v. 0 \<le> v \<and> v \<le> 255) (all_channels img')"
    using moved_in_range by blast
qed

lemma all_channels_example:
  "all_channels (image_of_bits 2 2 ''010101010101'') = [0, 1, 0, 1, 0, 1, 0, 1, 0, 1, 0, 1]"
  by (simp add: all_channels_def channel_values_def column_major_def image_of_bits_def upt_rec)

theorem channel_range_invariant_witness:
  "list_all is_bit ''1101'' \<and> 0 + 1 \<le> width (image_of_bits 2 2 ''010101010101'')
   \<and> list_all (\<lambda>v. 0 \<le> v \<and> v \<le> 255) (all_channels (image_of_bits 2 2 ''010101010101''))
   \<and> (\<exists>img'. embed (image_of_bits 2 2 ''010101010101'') ''1101'' 0 1 = Inr img'
        \<and> list_all (\<lambda>v. 0 \<le> v \<and> v \<le> 255) (all_channels img')
        \<and> list_all2 moved (all_channels img') (all_channels (image_of_bits 2 2 ''010101010101'')))"
proof -
  have pre: "list_all is_bit ''1101'' \<and> 0 + 1 \<le> width (image_of_bits 2 2 ''010101010101'')"
    by (simp add: is_bit_def image_of_bits_def)
  have rng: "list_all (\<lambda>v. 0 \<le> v \<and> v \<le> 255) (all_channels (image_of_bits 2 2 ''010101010101''))"
    by (simp add: all_channels_example)
  note T = channel_range_invariant [of "''1101''" 0 1 "image_of_bits 2 2 ''010101010101''"]
  from T pre obtain img' where
    "embed (image_of_bits 2 2 ''010101010101'') ''1101'' 0 1 = Inr img'" by blast
  with T pre rng show ?thesis by blast
qed

text \<open>
  C6. For a string of binary digits and planned columns that lie inside the image and
  hold at least as many channels as there are bits, the encoding loops return an image
  in which, along the planned columns from the top of the first one, the first
  \<open>length bm\<close> channels have the parities of the bits, every later channel of the
  planned columns has the value it had, and so has every pixel outside them.
\<close>

theorem embed_stops_at_exhaustion:
  assumes "list_all is_bit bm"
    and "start + columns_used \<le> width img"
    and "length bm \<le> 3 * (columns_used * height img)"
  shows "\<exists>img'. embed img bm start columns_used = Inr img'
    \<and> map parity_char
        (take (length bm)
          (channel_values img' (column_major [start..<start + columns_used] (height img)))) = bm
    \<and> drop (length bm)
        (channel_values img' (column_major [start..<start + columns_used] (height img)))
      = drop (length bm)
        (channel_values img (column_major [start..<start + columns_used] (height img)))
    \<and> (\<forall>p. p \<notin> set (column_major [start..<start + columns_used] (height img))
          \<longrightarrow> pixels img' p = pixels img p)"
proof -
  let ?span = "column_major [start..<start + columns_used] (height img)"
  from embed_returns [OF assms(1,2)] obtain img' where
    r: "embed img bm start columns_used = Inr img'" by blast
  from embed_effect [where img = img and bm = bm and start = start and columns_used = columns_used] r
  have frame: "\<forall>p. p \<notin> set ?span \<longrightarrow> pixels img' p = pixels img p"
    and vals: "channel_values img' ?span = overwrite (channel_values img ?span) bm"
    by (simp_all del: split_paired_All)
  have len: "length bm \<le> length (channel_values img ?span)"
    using assms(3) by simp
  have "map parity_char (take (length bm) (channel_values img' ?span)) = bm"
    unfolding vals using assms(1) len by (rule take_overwrite_parity)
  moreover have "drop (length bm) (channel_values img' ?span)
      = drop (length bm) (channel_values img ?span)"
    unfolding vals by (rule drop_overwrite)
  ultimately show ?thesis using r frame by blast
qed

theorem embed_stops_at_exhaustion_witness:
  "list_all is_bit ''1101'' \<and> 0 + 1 \<le> width (image_of_bits 2 2 ''010101010101'')
   \<and> length ''1101'' \<le> 3 * (1 * height (image_of_bits 2 2 ''010101010101''))
   \<and> (\<exists>img'. embed (image_of_bits 2 2 ''010101010101'') ''1101'' 0 1 = Inr img'
        \<and> map parity_char (take (length ''1101'') (channel_values img' [(0, 0), (0, 1)]))
          = ''1101''
        \<and> drop (length ''1101'') (channel_values img' [(0, 0), (0, 1)]) = [0, 1]
        \<and> pixels img' (1, 0) = (0, 1, 0))"
proof -
  have a: "list_all is_bit ''1101''" by (simp add: is_bit_def)
  have b: "0 + 1 \<le> width (image_of_bits 2 2 ''010101010101'')"
    by (simp add: image_of_bits_def)
  have c: "length ''1101'' \<le> 3 * (1 * height (image_of_bits 2 2 ''010101010101''))"
    by (simp add: image_of_bits_def)
  have span: "column_major [0..<0 + 1] (height (image_of_bits 2 2 ''010101010101''))
      = [(0, 0), (0, 1)]"
    by (simp add: column_major_def image_of_bits_def upt_rec)
  have old: "channel_values (image_of_bits 2 2 ''010101010101'') [(0, 0), (0, 1)]
      = [0, 1, 0, 1, 0, 1]"
    by (simp add: channel_values_def image_of_bits_def)
  have out: "pixels (image_of_bits 2 2 ''010101010101'') (1, 0) = (0, 1, 0)"
    by (simp add: image_of_bits_def)
  from embed_stops_at_exhaustion [OF a b c] obtain img' where
    r: "embed (image_of_bits 2 2 ''010101010101'') ''1101'' 0 1 = Inr img'"
    and p: "map parity_char (take (length ''1101'') (channel_values img' [(0, 0), (0, 1)]))
      = ''1101''"
    and d: "drop (length ''1101'') (channel_values img' [(0, 0), (0, 1)])
      = drop (length ''1101'')
          (channel_values (image_of_bits 2 2 ''010101010101'') [(0, 0), (0, 1)])"
    and f: "\<forall>p. p \<notin> set [(0, 0), (0, 1)]
      \<longrightarrow> pixels img' p = pixels (image_of_bits 2 2 ''010101010101'') p"
    unfolding span by (elim exE conjE) (rule that)
  from d have d': "drop (length ''1101'') (channel_values img' [(0, 0), (0, 1)]) = [0, 1]"
    unfolding old by simp
  from f have "pixels img' (1, 0) = pixels (image_of_bits 2 2 ''010101010101'') (1, 0)"
    by simp
  then have f': "pixels img' (1, 0) = (0, 1, 0)" unfolding out .
  from a b c r p d' f' show ?thesis by (intro conjI exI)
qed

section \<open>What the decoder reads\<close>

lemma fold_fold_concat: "fold (\<lambda>x. fold g (f x)) xs acc = fold g (concat (map f xs)) acc"
  by (induction xs arbitrary: acc) simp_all

lemma fold_snoc_map: "fold (\<lambda>x acc. acc @ [f x]) xs acc = acc @ map f xs"
  by (induction xs arbitrary: acc) simp_all

lemma channel_values_column_major:
  "channel_values img (column_major cols h)
   = concat (map (\<lambda>col. concat (map (\<lambda>row. list_of_pixel (pixels img (col, row))) [0..<h])) cols)"
  by (induction cols) (simp_all add: column_major_def channel_values_def comp_def)

lemma raw_binary_of_all_channels: "raw_binary_of img = map parity_char (all_channels img)"
proof -
  have "raw_binary_of img
    = fold (\<lambda>channel raw_binary. raw_binary @ [parity_char channel])
        (concat (map (\<lambda>col. concat (map (\<lambda>row. list_of_pixel (pixels img (col, row)))
           [0..<height img])) [0..<width img])) []"
    unfolding raw_binary_of_def fold_fold_concat ..
  then show ?thesis
    by (simp add: fold_snoc_map all_channels_def channel_values_column_major)
qed

lemma length_raw_binary_of: "length (raw_binary_of img) = 3 * (width img * height img)"
  by (simp add: raw_binary_of_all_channels all_channels_def)

lemma list_all_is_bit_parity: "list_all is_bit (map parity_char vs)"
  by (induction vs) (simp_all add: is_bit_def parity_char_def)

lemma list_all_is_bit_raw_binary_of: "list_all is_bit (raw_binary_of img)"
  by (simp add: raw_binary_of_all_channels list_all_is_bit_parity)

lemma py_range_multiples:
  assumes "0 < step"
  shows "py_range (a * step) (n * step) step = map (\<lambda>j. j * step) [a..<n]"
proof (induction "n - a" arbitrary: a)
  case 0
  then have "n * step \<le> a * step" by simp
  with 0 show ?case by (simp add: py_range_empty)
next
  case (Suc k)
  then have lt: "a < n" by simp
  then have "a * step < n * step" using assms by simp
  then have "py_range (a * step) (n * step) step
      = a * step # py_range (Suc a * step) (n * step) step"
    using assms by (simp add: py_range_step add.commute)
  also have "py_range (Suc a * step) (n * step) step = map (\<lambda>j. j * step) [Suc a..<n]"
    using Suc.hyps(2) by (intro Suc.hyps(1)) simp
  finally show ?case using lt by (simp add: upt_conv_Cons)
qed

lemma candidates:
  assumes "0 < height img"
  shows "py_range 0 (length (raw_binary_of img)) (height img * 3)
    = map (\<lambda>j. j * (height img * 3)) [0..<width img]"
proof -
  have "length (raw_binary_of img) = width img * (height img * 3)"
    by (simp add: length_raw_binary_of)
  then show ?thesis
    using py_range_multiples [of "height img * 3" 0 "width img"] assms by simp
qed

lemma list_all_is_bit_slice: "list_all is_bit s \<Longrightarrow> list_all is_bit (slice s a b)"
  unfolding slice_def list_all_iff by (meson in_set_takeD in_set_dropD)

lemma list_all_is_bit_drop: "list_all is_bit s \<Longrightarrow> list_all is_bit (drop n s)"
  unfolding list_all_iff by (meson in_set_dropD)

lemma delimiter_loop_find:
  assumes "list_all is_bit raw"
  shows "delimiter_loop raw (length delimiter * 8) delimiter ks
    = Inr (map_option (\<lambda>k. k + length delimiter * 8) (find (window_matches raw delimiter) ks))"
proof (induction ks)
  case Nil
  show ?case by simp
next
  case (Cons k ks)
  from binary_to_message_total [OF list_all_is_bit_slice [OF assms]]
  obtain t where "binary_to_message (slice raw k (k + length delimiter * 8)) = Inr t"
    by blast
  then show ?case using Cons.IH by (simp add: window_matches_def)
qed

lemma reveal_message_search:
  assumes "fs image_filename = Some img" and "delimiter \<noteq> []" and "0 < height img"
  shows "reveal_message fs image_filename delimiter =
    (case find (window_matches (raw_binary_of img) delimiter)
            (map (\<lambda>j. j * (height img * 3)) [0..<width img]) of
       None \<Rightarrow> Inl (Reported No_message_found)
     | Some k \<Rightarrow> message_after (raw_binary_of img) delimiter (k + length delimiter * 8))"
  using assms
  by (simp add: reveal_message_def Image_open_def Let_def candidates message_after_def
      delimiter_loop_find [OF list_all_is_bit_raw_binary_of] split: option.splits)






lemmas decode_simps =
  binary_to_message_def py_range.simps int_0b_def is_bit_def chr_def slice_def text_of_def



section \<open>Refusals and failures\<close>

text \<open>
  C8. \<open>hide_in_image\<close> answers an empty message, and then an empty delimiter, with its
  sentence of refusal whatever the folder holds and whatever the file names are, so
  before it converts anything or opens the image; \<open>reveal_message\<close> answers an empty
  delimiter in the same way.
\<close>

theorem empty_input_validation:
  "(message = [] \<longrightarrow>
      hide_in_image seed fs message delimiter image_filename new_filename
        = Inl (Reported Cannot_encrypt_without_message))
   \<and> (message \<noteq> [] \<and> delimiter = [] \<longrightarrow>
      hide_in_image seed fs message delimiter image_filename new_filename
        = Inl (Reported Cannot_encrypt_without_delimiter))
   \<and> (delimiter = [] \<longrightarrow>
      reveal_message fs image_filename delimiter
        = Inl (Reported Cannot_decrypt_without_a_supplied_delimiter))"
  by (simp add: hide_in_image_def reveal_message_def)

theorem empty_input_validation_witness:
  "hide_in_image 0 Map.empty [] (text_of ''#'') ''missing.jpg'' ''out''
     = Inl (Reported Cannot_encrypt_without_message)
   \<and> hide_in_image 0 Map.empty (text_of ''a'') [] ''missing.jpg'' ''out''
     = Inl (Reported Cannot_encrypt_without_delimiter)
   \<and> reveal_message Map.empty ''missing.png'' []
     = Inl (Reported Cannot_decrypt_without_a_supplied_delimiter)"
  using empty_input_validation [of "[]" 0 Map.empty "text_of ''#''" "''missing.jpg''" "''out''"]
    empty_input_validation [of "text_of ''a''" 0 Map.empty "[]" "''missing.jpg''" "''out''"]
    empty_input_validation [of "[]" 0 Map.empty "[]" "''missing.png''" "''out''"]
  by (simp add: text_of_def)

text \<open>With a message and a delimiter, the missing file is what the call fails on.\<close>

lemma hide_in_image_missing_file:
  "message \<noteq> [] \<Longrightarrow> delimiter \<noteq> [] \<Longrightarrow> fs image_filename = None \<Longrightarrow>
   hide_in_image seed fs message delimiter image_filename new_filename
     = Inl (Raised FileNotFoundError)"
  by (simp add: hide_in_image_def Image_open_def)

lemma length_message_to_binary:
  "list_all (\<lambda>c. c < 256) message \<Longrightarrow> list_all (\<lambda>c. c < 256) delimiter \<Longrightarrow>
   length (message_to_binary message delimiter) = 8 * (length message + 2 * length delimiter)"
proof -
  assume "list_all (\<lambda>c. c < 256) message" and "list_all (\<lambda>c. c < 256) delimiter"
  then have "list_all (\<lambda>c. c < 256) (delimiter @ message @ delimiter)" by simp
  from length_concat_format_08b [OF this] show ?thesis
    by (simp add: message_to_binary_concat del: map_append)
qed

lemma list_all_is_bit_concat_format_08b: "list_all is_bit (concat (map format_08b xs))"
  by (induction xs) (simp_all add: list_all_is_bit_format_08b)

lemma list_all_is_bit_message_to_binary:
  "list_all is_bit (message_to_binary message delimiter)"
  unfolding message_to_binary_concat by (rule list_all_is_bit_concat_format_08b)

lemma ceil_div_upper: "0 < b \<Longrightarrow> a \<le> ceil_div a b * b"
proof -
  assume b: "0 < b"
  have "a + b - 1 = (a + b - 1) div b * b + (a + b - 1) mod b" by simp
  moreover have "(a + b - 1) mod b < b" using b by simp
  ultimately have "a + b - 1 \<le> (a + b - 1) div b * b + (b - 1)" by linarith
  then show ?thesis using b by (simp add: ceil_div_def)
qed

text \<open>
  The outcomes of \<open>hide_in_image\<close> for a message and a delimiter of one-byte characters
  and an image that is there: the report when the bits outnumber the channels; the
  uncaught \<open>ValueError\<close> of \<open>randrange\<close> when they do not but the columns used
  are all the columns of the image; and otherwise the saved image, written from the
  column that the generator draws below \<open>width - columns_used\<close>.
\<close>

lemma hide_in_image_cases:
  assumes "fs image_filename = Some img"
    and "message \<noteq> []" and "delimiter \<noteq> []"
    and "list_all (\<lambda>c. c < 256) message" and "list_all (\<lambda>c. c < 256) delimiter"
  defines "n \<equiv> 8 * (length message + 2 * length delimiter)"
  defines "columns_used \<equiv> ceil_div (ceil_div n 3) (height img)"
  shows "width img * height img * 3 < n \<Longrightarrow>
      hide_in_image seed fs message delimiter image_filename new_filename
        = Inl (Reported Image_too_small_or_message_too_large)"
    and "n \<le> width img * height img * 3 \<Longrightarrow> width img \<le> columns_used \<Longrightarrow>
      hide_in_image seed fs message delimiter image_filename new_filename
        = Inl (Raised ValueError)"
    and "n \<le> width img * height img * 3 \<Longrightarrow> columns_used < width img \<Longrightarrow>
      \<exists>img'. embed img (message_to_binary message delimiter)
              (seed mod (width img - columns_used)) columns_used = Inr img'
        \<and> hide_in_image seed fs message delimiter image_filename new_filename
          = Inr (fs(new_filename @ ''.png'' \<mapsto> img'))"
proof -
  have len: "length (message_to_binary message delimiter) = n"
    unfolding n_def using assms(4,5) by (rule length_message_to_binary)
  have n: "0 < n" using assms(2) by (simp add: n_def)
  {
    assume "width img * height img * 3 < n"
    then show "hide_in_image seed fs message delimiter image_filename new_filename
        = Inl (Reported Image_too_small_or_message_too_large)"
      using assms(1-3) len by (simp add: hide_in_image_def Image_open_def Let_def)
  next
    assume fits: "n \<le> width img * height img * 3" and all: "width img \<le> columns_used"
    from fits n have h: "0 < height img" by (cases "height img") simp_all
    show "hide_in_image seed fs message delimiter image_filename new_filename
        = Inl (Raised ValueError)"
      using assms(1-3) len fits h all
      by (simp add: hide_in_image_def Image_open_def Let_def columns_used_def randrange_def)
  next
    assume fits: "n \<le> width img * height img * 3" and some: "columns_used < width img"
    from fits n have h: "0 < height img" by (cases "height img") simp_all
    let ?start = "seed mod (width img - columns_used)"
    have "?start < width img - columns_used" using some by simp
    then have inside: "?start + columns_used \<le> width img" by simp
    from embed_returns [OF list_all_is_bit_message_to_binary inside]
    obtain img' where
      e: "embed img (message_to_binary message delimiter) ?start columns_used = Inr img'"
      by blast
    have r: "randrange seed 0 (int (width img) - int columns_used)
        = Inr (int ?start)"
      using some by (simp add: randrange_def zmod_int of_nat_diff)
    have "hide_in_image seed fs message delimiter image_filename new_filename
          = Inr (fs(new_filename @ ''.png'' \<mapsto> img'))"
      using assms(1-3) len fits h e r
      by (simp add: hide_in_image_def Image_open_def Let_def columns_used_def [symmetric])
    with e show "\<exists>img'. embed img (message_to_binary message delimiter)
              (seed mod (width img - columns_used)) columns_used = Inr img'
        \<and> hide_in_image seed fs message delimiter image_filename new_filename
          = Inr (fs(new_filename @ ''.png'' \<mapsto> img'))"
      by blast
  }
qed

text \<open>
  C3, at an image one column wide and eight rows high, the message \<open>a\<close> and the
  delimiter \<open>#\<close>: the 24 bits are as many as the 24 channels, so the size test passes;
  the one column is used, \<open>latest_start\<close> is 0, and \<open>randrange(0, 0)\<close> raises
  \<open>ValueError\<close>, whatever the generator's state. Nothing is reported and nothing
  saved, where the claim asks for the report that the image is too small.
\<close>

theorem hide_in_image_full_width_raises:
  "length (message_to_binary (text_of ''a'') (text_of ''#'')) = 24
   \<and> width (image_of_bits 1 8 []) * height (image_of_bits 1 8 []) * 3 = 24
   \<and> hide_in_image seed [''c.png'' \<mapsto> image_of_bits 1 8 []] (text_of ''a'') (text_of ''#'')
        ''c.png'' ''d'' = Inl (Raised ValueError)"
proof -
  have bm: "message_to_binary (text_of ''a'') (text_of ''#'') = ''001000110110000100100011''"
    by code_simp
  have "hide_in_image seed [''c.png'' \<mapsto> image_of_bits 1 8 []] (text_of ''a'') (text_of ''#'')
        ''c.png'' ''d'' = Inl (Raised ValueError)"
    unfolding hide_in_image_def bm
    by (simp add: Image_open_def image_of_bits_def ceil_div_def randrange_def text_of_def)
  then show ?thesis
    unfolding bm by (simp add: image_of_bits_def)
qed

text \<open>
  C2, at an image one column wide and eight rows high whose parities spell \<open>#hi\<close>, read
  with the delimiter \<open>#\<close>: the opening delimiter is found at offset 0, the remaining bits
  decode to \<open>hi\<close>, in which \<open>find\<close> does not find the delimiter and returns -1, and
  the slice up to -1 leaves the last character out: the result is \<open>h\<close>, where the
  claim asks for the whole decoded text \<open>hi\<close>.
\<close>

theorem reveal_message_without_closing_delimiter:
  "binary_to_message (drop 8 (raw_binary_of (image_of_bits 1 8 ''001000110110100001101001'')))
     = Inr (text_of ''hi'')
   \<and> py_find (text_of ''hi'') (text_of ''#'') = - 1
   \<and> reveal_message [''s.png'' \<mapsto> image_of_bits 1 8 ''001000110110100001101001'']
        ''s.png'' (text_of ''#'') = Inr (text_of ''h'')"
proof -
  have raw: "raw_binary_of (image_of_bits 1 8 ''001000110110100001101001'')
      = ''001000110110100001101001''"
    by (simp add: raw_binary_of_def image_of_bits_def upt_rec parity_char_def)
  let ?img = "image_of_bits 1 8 ''001000110110100001101001''"
  have f: "[''s.png'' \<mapsto> ?img] ''s.png'' = Some ?img" by simp
  have d: "text_of ''#'' \<noteq> []" by (simp add: text_of_def)
  have h: "0 < height ?img" by (simp add: image_of_bits_def)
  have w: "width ?img = 1" and hh: "height ?img = 8" by (simp_all add: image_of_bits_def)
  have m0: "window_matches ''001000110110100001101001'' (text_of ''#'') 0"
    by (simp add: window_matches_def decode_simps)
  have tail: "binary_to_message (drop 8 ''001000110110100001101001'') = Inr (text_of ''hi'')"
    by (simp add: decode_simps)
  have nf: "py_find (text_of ''hi'') (text_of ''#'') = - 1"
    by (simp add: py_find_def text_of_def)
  have "reveal_message [''s.png'' \<mapsto> ?img] ''s.png'' (text_of ''#'')
      = message_after ''001000110110100001101001'' (text_of ''#'') (0 + length (text_of ''#'') * 8)"
    unfolding reveal_message_search [where fs = "[''s.png'' \<mapsto> ?img]"
        and image_filename = "''s.png''", OF f d h] w hh raw
    using m0 by simp
  also have "\<dots> = Inr (text_of ''h'')"
    using tail nf by (simp add: message_after_def slice_to_def text_of_def)
  finally show ?thesis using tail nf unfolding raw by simp
qed

text \<open>
  In general: when the delimiter does not occur in the decoded text, \<open>find\<close> returns -1
  and the slice is the text without its last character.
\<close>

lemma message_after_without_closing_delimiter:
  assumes "binary_to_message (drop msg_start raw_binary) = Inr preprocessed_message"
    and "py_find preprocessed_message delimiter = - 1"
  shows "message_after raw_binary delimiter msg_start = Inr (butlast preprocessed_message)"
proof -
  have "nat (int (length preprocessed_message) + - 1) = length preprocessed_message - 1"
    by linarith
  then show ?thesis
    using assms by (simp add: message_after_def slice_to_def butlast_conv_take)
qed

section \<open>Hiding, then revealing\<close>

lemma upt_three:
  assumes "start + columns_used \<le> w"
  shows "[0..<w] = [0..<start] @ [start..<start + columns_used] @ [start + columns_used..<w]"
proof -
  from assms obtain k where w: "w = (start + columns_used) + k"
    using le_Suc_ex by blast
  have "[0..<(start + columns_used) + k]
      = [0..<start + columns_used] @ [start + columns_used..<(start + columns_used) + k]"
    by (rule upt_add_eq_append) simp
  moreover have "[0..<start + columns_used] = [0..<start] @ [start..<start + columns_used]"
    by (rule upt_add_eq_append) simp
  ultimately show ?thesis unfolding w by simp
qed

lemma splice_lists:
  assumes "length bm \<le> length s"
  shows "take (length a) (a @ s @ b) @ bm @ drop (length a + length bm) (a @ s @ b)
    = a @ (bm @ drop (length bm) s) @ b"
  using assms by simp

lemma raw_binary_after_embed:
  assumes e: "embed img bm start columns_used = Inr img'"
    and bits: "list_all is_bit bm"
    and inside: "start + columns_used \<le> width img"
    and covers: "length bm \<le> 3 * (columns_used * height img)"
  shows "raw_binary_of img'
    = take (start * (height img * 3)) (raw_binary_of img) @ bm
      @ drop (start * (height img * 3) + length bm) (raw_binary_of img)"
proof -
  let ?h = "height img"
  let ?A = "column_major [0..<start] ?h"
  let ?S = "column_major [start..<start + columns_used] ?h"
  let ?B = "column_major [start + columns_used..<width img] ?h"
  from embed_effect [where img = img and bm = bm and start = start and columns_used = columns_used] e
  have frame: "\<And>p. p \<notin> set ?S \<Longrightarrow> pixels img' p = pixels img p"
    and vals: "channel_values img' ?S = overwrite (channel_values img ?S) bm"
    by (simp_all del: split_paired_All)
  note split = upt_three [OF inside]
  have cm: "column_major [0..<width img] ?h = ?A @ ?S @ ?B"
    by (subst split) (simp only: column_major_append)
  have A: "channel_values img' ?A = channel_values img ?A"
    by (intro channel_values_cong frame) (auto simp: set_column_major)
  have B: "channel_values img' ?B = channel_values img ?B"
    by (intro channel_values_cong frame) (auto simp: set_column_major)
  define a where "a = map parity_char (channel_values img ?A)"
  define s where "s = map parity_char (channel_values img ?S)"
  define b where "b = map parity_char (channel_values img ?B)"
  have old: "raw_binary_of img = a @ s @ b"
    unfolding raw_binary_of_all_channels all_channels_def cm a_def s_def b_def
    by (simp only: channel_values_append map_append)
  have len_a: "length a = start * (?h * 3)"
    by (simp add: a_def)
  have len_s: "length bm \<le> length s"
    using covers by (simp add: s_def)
  have "raw_binary_of img' = map parity_char (channel_values img' ?A)
      @ map parity_char (channel_values img' ?S) @ map parity_char (channel_values img' ?B)"
    unfolding raw_binary_of_all_channels all_channels_def embed_dims [OF e] cm
    by (simp only: channel_values_append map_append)
  also have "map parity_char (channel_values img' ?S) = bm @ drop (length bm) s"
    unfolding vals s_def using bits covers by (simp add: parity_overwrite)
  finally have "raw_binary_of img' = a @ (bm @ drop (length bm) s) @ b"
    unfolding A B a_def b_def .
  also have "\<dots> = take (length a) (a @ s @ b) @ bm @ drop (length a + length bm) (a @ s @ b)"
    using len_s by (rule splice_lists [symmetric])
  finally show ?thesis unfolding old len_a .
qed

lemma find_at_closing:
  assumes "d \<noteq> []"
  shows "find_at (m @ d) d i = int (i + length m) \<Longrightarrow>
         find_at (m @ d @ t) d i = int (i + length m)"
proof (induction m arbitrary: i)
  case Nil
  from assms obtain x xs where d: "d = x # xs" by (cases d) auto
  have "take (length d) (d @ t) = d" by simp
  then show ?case unfolding d by simp
next
  case (Cons x m)
  have same: "take (length d) (x # m @ d @ t) = take (length d) (x # m @ d)"
    using take_append [of "length d" "x # m @ d" t] by simp
  show ?case
  proof (cases "take (length d) (x # m @ d) = d")
    case True
    with Cons.prems show ?thesis by simp
  next
    case False
    with Cons.prems have "find_at (m @ d) d (i + 1) = int (i + 1 + length m)" by simp
    from Cons.IH [OF this] False same show ?thesis by simp
  qed
qed

lemma py_find_closing:
  "d \<noteq> [] \<Longrightarrow> py_find (m @ d) d = int (length m) \<Longrightarrow> py_find (m @ d @ t) d = int (length m)"
  using find_at_closing [of d m 0 t] by (simp add: py_find_def)

text \<open>
  What \<open>reveal_message\<close> makes of raw bits that hold the framed message from a column
  boundary on, when no earlier column boundary starts a window that reads as the
  delimiter.
\<close>

lemma reveal_framed:
  assumes img_file: "fs image_filename = Some img"
    and h: "0 < height img"
    and raw: "raw_binary_of img = before @ message_to_binary message delimiter @ rest"
    and before: "length before = start * (height img * 3)"
    and start: "start < width img"
    and d: "delimiter \<noteq> []"
    and bytes: "list_all (\<lambda>c. c < 256) message" "list_all (\<lambda>c. c < 256) delimiter"
    and closing: "py_find (message @ delimiter) delimiter = int (length message)"
    and earlier: "\<forall>j<start. \<not> window_matches (raw_binary_of img) delimiter (j * (height img * 3))"
  shows "reveal_message fs image_filename delimiter = Inr message"
proof -
  let ?F = "\<lambda>xs. concat (map format_08b xs)"
  let ?stride = "height img * 3"
  let ?ks = "map (\<lambda>j. j * ?stride) [0..<width img]"
  have bm: "message_to_binary message delimiter = ?F delimiter @ ?F (message @ delimiter)"
    by (simp add: message_to_binary_concat)
  have lenF: "length (?F delimiter) = length delimiter * 8"
    using bytes(2) by (simp add: length_concat_format_08b)
  have rest_bits: "list_all is_bit rest"
    using list_all_is_bit_raw_binary_of [of img] unfolding raw by simp
  have "slice (raw_binary_of img) (start * ?stride) (start * ?stride + length delimiter * 8)
      = ?F delimiter"
    unfolding raw bm slice_def using before lenF by simp
  then have here: "window_matches (raw_binary_of img) delimiter (start * ?stride)"
    using binary_to_message_frames [OF bytes(2), of "[]"]
    by (simp add: window_matches_def binary_to_message_Nil)
  have found: "find (window_matches (raw_binary_of img) delimiter) ?ks = Some (start * ?stride)"
    unfolding find_Some_iff
  proof (intro exI [of _ start] conjI allI impI)
    show "start < length ?ks" using start by simp
    show "window_matches (raw_binary_of img) delimiter (?ks ! start)" using start here by simp
    show "start * ?stride = ?ks ! start" using start by simp
    fix i assume "i < start"
    then show "\<not> window_matches (raw_binary_of img) delimiter (?ks ! i)"
      using start earlier by simp
  qed
  have tail: "drop (start * ?stride + length delimiter * 8) (raw_binary_of img)
      = ?F (message @ delimiter) @ rest"
    unfolding raw bm using before lenF by simp
  obtain t where t: "binary_to_message rest = Inr t"
    using binary_to_message_total [OF rest_bits] by blast
  have "list_all (\<lambda>c. c < 256) (message @ delimiter)" using bytes by simp
  from binary_to_message_frames [OF this, of rest] t
  have decoded: "binary_to_message (?F (message @ delimiter) @ rest)
      = Inr (message @ delimiter @ t)" by simp
  have "message_after (raw_binary_of img) delimiter (start * ?stride + length delimiter * 8)
      = Inr message"
    unfolding message_after_def tail decoded
    using py_find_closing [OF d closing, of t] by (simp add: slice_to_def)
  then show ?thesis
    unfolding reveal_message_search [where fs = fs and image_filename = image_filename,
        OF img_file d h] found by simp
qed

lemma covers_plan:
  assumes "0 < h"
  shows "n \<le> 3 * (ceil_div (ceil_div n 3) h * h)"
proof -
  have "n \<le> ceil_div n 3 * 3" by (rule ceil_div_upper) simp
  moreover have "ceil_div n 3 \<le> ceil_div (ceil_div n 3) h * h"
    using assms by (rule ceil_div_upper)
  ultimately show ?thesis by simp
qed

text \<open>
  C1, amended. Take a message and a delimiter, neither empty, of characters with code
  points below 256, such that the first place where the delimiter occurs in the message
  followed by the delimiter is the end of the message; and an image with at least as
  many channels as the framed message has bits and with more columns than the bits
  use. Then \<open>hide_in_image\<close> saves an image, and reading the saved file with the same
  delimiter returns the message, provided that no column before the drawn start column
  begins a window of the saved image that reads as the delimiter.
\<close>

theorem round_trip:
  assumes img_file: "fs image_filename = Some img"
    and nonempty: "message \<noteq> []" "delimiter \<noteq> []"
    and bytes: "list_all (\<lambda>c. c < 256) message" "list_all (\<lambda>c. c < 256) delimiter"
    and closing: "py_find (message @ delimiter) delimiter = int (length message)"
    and fits: "8 * (length message + 2 * length delimiter) \<le> width img * height img * 3"
    and room: "ceil_div (ceil_div (8 * (length message + 2 * length delimiter)) 3) (height img)
        < width img"
  shows "\<exists>img'. hide_in_image seed fs message delimiter image_filename new_filename
        = Inr (fs(new_filename @ ''.png'' \<mapsto> img'))
    \<and> ((\<forall>j < seed mod (width img
              - ceil_div (ceil_div (8 * (length message + 2 * length delimiter)) 3) (height img)).
          \<not> window_matches (raw_binary_of img') delimiter (j * (height img * 3)))
       \<longrightarrow> hide_then_reveal seed fs message delimiter image_filename new_filename
            = Inr message)"
proof -
  let ?n = "8 * (length message + 2 * length delimiter)"
  let ?cu = "ceil_div (ceil_div ?n 3) (height img)"
  let ?start = "seed mod (width img - ?cu)"
  let ?bm = "message_to_binary message delimiter"
  let ?stride = "height img * 3"
  let ?new = "new_filename @ ''.png''"
  from hide_in_image_cases(3) [where fs = fs and image_filename = image_filename,
      OF img_file nonempty bytes fits room]
  obtain img' where e: "embed img ?bm ?start ?cu = Inr img'"
    and hide: "hide_in_image seed fs message delimiter image_filename new_filename
        = Inr (fs(?new \<mapsto> img'))"
    by blast
  have len: "length ?bm = ?n" using bytes by (rule length_message_to_binary)
  have h: "0 < height img"
    using fits nonempty(1) by (cases "height img") simp_all
  have start: "?start < width img - ?cu" using room by simp
  then have inside: "?start + ?cu \<le> width img" by simp
  have covers: "length ?bm \<le> 3 * (?cu * height img)"
    unfolding len using h by (rule covers_plan)
  note raw = raw_binary_after_embed [OF e list_all_is_bit_message_to_binary inside covers]
  note dims = embed_dims [OF e]
  have "?start \<le> width img" using start by linarith
  then have "?start * ?stride \<le> width img * ?stride" by (rule mult_le_mono1)
  then have "?start * ?stride \<le> length (raw_binary_of img)"
    by (simp add: length_raw_binary_of ac_simps)
  then have before: "length (take (?start * ?stride) (raw_binary_of img))
      = ?start * (height img' * 3)"
    using dims by simp
  have "(\<forall>j < ?start. \<not> window_matches (raw_binary_of img') delimiter (j * ?stride))
       \<longrightarrow> hide_then_reveal seed fs message delimiter image_filename new_filename
            = Inr message"
  proof
    assume "\<forall>j < ?start. \<not> window_matches (raw_binary_of img') delimiter (j * ?stride)"
    then have earlier:
      "\<forall>j < ?start. \<not> window_matches (raw_binary_of img') delimiter (j * (height img' * 3))"
      using dims by simp
    have f: "(fs(?new \<mapsto> img')) ?new = Some img'" by simp
    have h': "0 < height img'" using h dims by simp
    have s': "?start < width img'" using start dims by simp
    have "reveal_message (fs(?new \<mapsto> img')) ?new delimiter = Inr message"
      using f h' raw before s' nonempty(2) bytes closing earlier
      by (rule reveal_framed [where fs = "fs(?new \<mapsto> img')" and image_filename = ?new])
    then show "hide_then_reveal seed fs message delimiter image_filename new_filename
        = Inr message"
      by (simp add: hide_then_reveal_def hide)
  qed
  with hide show ?thesis by blast
qed

lemma raw_binary_of_zero_3x8:
  "raw_binary_of (image_of_bits 3 8 [])
   = ''000000000000000000000000000000000000000000000000000000000000000000000000''"
  by (simp add: raw_binary_of_def image_of_bits_def upt_rec parity_char_def)

lemma message_to_binary_a: "message_to_binary (text_of ''a'') (text_of ''#'') = ''001000110110000100100011''"
  by code_simp

theorem round_trip_witness:
  "hide_then_reveal 1 [''c.png'' \<mapsto> image_of_bits 3 8 []] (text_of ''a'') (text_of ''#'')
     ''c.png'' ''s'' = Inr (text_of ''a'')"
proof -
  let ?img = "image_of_bits 3 8 []"
  let ?fs = "[''c.png'' \<mapsto> ?img]"
  let ?m = "text_of ''a''" and ?d = "text_of ''#''"
  have f: "?fs ''c.png'' = Some ?img" by simp
  have m: "?m \<noteq> []" and d: "?d \<noteq> []" by (simp_all add: text_of_def)
  have mb: "list_all (\<lambda>c. c < 256) ?m" and db: "list_all (\<lambda>c. c < 256) ?d"
    by (simp_all add: text_of_def)
  have closing: "py_find (?m @ ?d) ?d = int (length ?m)"
    by (simp add: py_find_def text_of_def)
  have w: "width ?img = 3" and h: "height ?img = 8" by (simp_all add: image_of_bits_def)
  have cu: "ceil_div (ceil_div (8 * (length ?m + 2 * length ?d)) 3) (height ?img) = 1"
    by (simp add: ceil_div_def text_of_def h)
  have fits: "8 * (length ?m + 2 * length ?d) \<le> width ?img * height ?img * 3"
    by (simp add: text_of_def w h)
  have room: "ceil_div (ceil_div (8 * (length ?m + 2 * length ?d)) 3) (height ?img) < width ?img"
    unfolding cu w by simp
  have start: "1 mod (width ?img
      - ceil_div (ceil_div (8 * (length ?m + 2 * length ?d)) 3) (height ?img)) = (1 :: nat)"
    unfolding cu w by simp
  from round_trip [where fs = "?fs" and image_filename = "''c.png''" and seed = 1
      and new_filename = "''s''", OF f m d mb db closing fits room, unfolded start, unfolded h]
  obtain img' where
    hide: "hide_in_image 1 ?fs ?m ?d ''c.png'' ''s'' = Inr (?fs(''s'' @ ''.png'' \<mapsto> img'))"
    and rt: "(\<forall>j<1. \<not> window_matches (raw_binary_of img') ?d (j * (8 * 3)))
       \<longrightarrow> hide_then_reveal 1 ?fs ?m ?d ''c.png'' ''s'' = Inr ?m"
    by (elim exE conjE) (rule that)
  from hide_in_image_cases(3) [where fs = "?fs" and image_filename = "''c.png''" and seed = 1
      and new_filename = "''s''", OF f m d mb db fits room, unfolded start, unfolded cu]
  obtain img'' where
    e: "embed ?img (message_to_binary ?m ?d) 1 1 = Inr img''"
    and hide': "hide_in_image 1 ?fs ?m ?d ''c.png'' ''s'' = Inr (?fs(''s'' @ ''.png'' \<mapsto> img''))"
    by (elim exE conjE) (rule that)
  from hide hide' have "?fs(''s'' @ ''.png'' \<mapsto> img') = ?fs(''s'' @ ''.png'' \<mapsto> img'')"
    by simp
  then have "img' = img''" by (rule map_upd_eqD1)
  with e have e': "embed ?img ''001000110110000100100011'' 1 1 = Inr img'"
    by (simp add: message_to_binary_a)
  have "raw_binary_of img'
      = take (1 * (height ?img * 3)) (raw_binary_of ?img) @ ''001000110110000100100011''
        @ drop (1 * (height ?img * 3) + length ''001000110110000100100011'') (raw_binary_of ?img)"
    using e' by (rule raw_binary_after_embed) (simp_all add: is_bit_def w h)
  then have raw: "raw_binary_of img'
      = ''000000000000000000000000001000110110000100100011000000000000000000000000''"
    unfolding raw_binary_of_zero_3x8 h by simp
  have "\<not> window_matches (raw_binary_of img') ?d 0"
    unfolding raw by (simp add: window_matches_def decode_simps)
  then have "\<forall>j<1. \<not> window_matches (raw_binary_of img') ?d (j * (8 * 3))" by simp
  with rt show ?thesis by blast
qed

lemma raw_binary_of_cover_3x8:
  "raw_binary_of (image_of_bits 3 8 ''001000110110001000100011'')
   = ''001000110110001000100011000000000000000000000000000000000000000000000000''"
  by (simp add: raw_binary_of_def image_of_bits_def upt_rec parity_char_def)

text \<open>
  C1 as it is stated fails. The image is three columns wide and eight rows high, and the
  parities of its first column spell \<open>#b#\<close>, as they do after \<open>b\<close> was hidden there.
  The message \<open>a\<close> and the delimiter \<open>#\<close> meet every condition of the claim: the 24
  bits fit the 72 channels, they use one column of three, and the delimiter occurs in
  \<open>a#\<close> at the end only. When the generator draws column 1, the saved image reads
  back as \<open>b\<close>: the search stops at column 0.
\<close>

theorem round_trip_counterexample:
  "text_of ''a'' \<noteq> [] \<and> text_of ''#'' \<noteq> []
   \<and> py_find (text_of ''a'' @ text_of ''#'') (text_of ''#'') = int (length (text_of ''a''))
   \<and> length (message_to_binary (text_of ''a'') (text_of ''#''))
       \<le> width (image_of_bits 3 8 ''001000110110001000100011'')
         * height (image_of_bits 3 8 ''001000110110001000100011'') * 3
   \<and> ceil_div (ceil_div (length (message_to_binary (text_of ''a'') (text_of ''#''))) 3)
         (height (image_of_bits 3 8 ''001000110110001000100011''))
       < width (image_of_bits 3 8 ''001000110110001000100011'')
   \<and> hide_then_reveal 1 [''c.png'' \<mapsto> image_of_bits 3 8 ''001000110110001000100011'']
         (text_of ''a'') (text_of ''#'') ''c.png'' ''s'' = Inr (text_of ''b'')
   \<and> text_of ''b'' \<noteq> text_of ''a''"
proof -
  let ?img = "image_of_bits 3 8 ''001000110110001000100011''"
  let ?fs = "[''c.png'' \<mapsto> ?img]"
  let ?m = "text_of ''a''" and ?d = "text_of ''#''"
  let ?bm = "''001000110110000100100011''"
  have f: "?fs ''c.png'' = Some ?img" by simp
  have m: "?m \<noteq> []" and d: "?d \<noteq> []" by (simp_all add: text_of_def)
  have mb: "list_all (\<lambda>c. c < 256) ?m" and db: "list_all (\<lambda>c. c < 256) ?d"
    by (simp_all add: text_of_def)
  have closing: "py_find (?m @ ?d) ?d = int (length ?m)"
    by (simp add: py_find_def text_of_def)
  have w: "width ?img = 3" and h: "height ?img = 8" by (simp_all add: image_of_bits_def)
  have cu: "ceil_div (ceil_div (8 * (length ?m + 2 * length ?d)) 3) (height ?img) = 1"
    by (simp add: ceil_div_def text_of_def h)
  have fits: "8 * (length ?m + 2 * length ?d) \<le> width ?img * height ?img * 3"
    by (simp add: text_of_def w h)
  have room: "ceil_div (ceil_div (8 * (length ?m + 2 * length ?d)) 3) (height ?img) < width ?img"
    unfolding cu w by simp
  have start: "1 mod (width ?img
      - ceil_div (ceil_div (8 * (length ?m + 2 * length ?d)) 3) (height ?img)) = (1 :: nat)"
    unfolding cu w by simp
  from hide_in_image_cases(3) [where fs = "?fs" and image_filename = "''c.png''" and seed = 1
      and new_filename = "''s''", OF f m d mb db fits room, unfolded start, unfolded cu]
  obtain img' where
    e: "embed ?img (message_to_binary ?m ?d) 1 1 = Inr img'"
    and hide: "hide_in_image 1 ?fs ?m ?d ''c.png'' ''s'' = Inr (?fs(''s'' @ ''.png'' \<mapsto> img'))"
    by (elim exE conjE) (rule that)
  from e have e': "embed ?img ?bm 1 1 = Inr img'"
    by (simp add: message_to_binary_a)
  have "raw_binary_of img'
      = take (1 * (height ?img * 3)) (raw_binary_of ?img) @ ?bm
        @ drop (1 * (height ?img * 3) + length ?bm) (raw_binary_of ?img)"
    using e' by (rule raw_binary_after_embed) (simp_all add: is_bit_def w h)
  then have raw: "raw_binary_of img'
      = ''001000110110001000100011001000110110000100100011000000000000000000000000''"
    unfolding raw_binary_of_cover_3x8 h by simp
  have dims: "width img' = 3" "height img' = 8"
    using embed_dims [OF e'] w h by simp_all
  have f': "(?fs(''s'' @ ''.png'' \<mapsto> img')) (''s'' @ ''.png'') = Some img'" by simp
  have h': "0 < height img'" using dims by simp
  have m0: "window_matches
      ''001000110110001000100011001000110110000100100011000000000000000000000000'' ?d 0"
    by (simp add: window_matches_def decode_simps)
  have "reveal_message (?fs(''s'' @ ''.png'' \<mapsto> img')) (''s'' @ ''.png'') ?d
      = message_after
          ''001000110110001000100011001000110110000100100011000000000000000000000000'' ?d
          (0 + length ?d * 8)"
    unfolding reveal_message_search [where fs = "?fs(''s'' @ ''.png'' \<mapsto> img')"
        and image_filename = "''s'' @ ''.png''", OF f' d h'] dims raw
    using m0 by (simp add: upt_rec)
  also have "\<dots> = Inr (text_of ''b'')"
    by (simp add: message_after_def decode_simps py_find_def slice_to_def)
  finally have "hide_then_reveal 1 ?fs ?m ?d ''c.png'' ''s'' = Inr (text_of ''b'')"
    unfolding hide_then_reveal_def hide by (simp only: sum.case)
  moreover have "text_of ''b'' \<noteq> text_of ''a''" by (simp add: text_of_def)
  moreover have "length (message_to_binary ?m ?d) = 8 * (length ?m + 2 * length ?d)"
    using mb db by (rule length_message_to_binary)
  ultimately show ?thesis
    using m d closing fits room by simp
qed

end
